theory Spec2Isabelle
  imports Main "HOL-Library.Word"
begin

unbundle bit_operations_syntax

section \<open>Shared types (src/shared.ts)\<close>

text \<open>
  A \<open>Uint8Array\<close> is modelled by the list of its bytes. JavaScript numbers that hold
  integers, and bigints, are modelled by \<open>int\<close>; the 32-bit integers that the bitwise
  operators of JavaScript work on are \<open>32 word\<close>. \<open>undefined\<close> is \<open>None\<close>.
\<close>

type_synonym byte = "8 word"
type_synonym int32 = "32 word"

datatype Endian = Little | Big

datatype error = EndOfStream | RangeError | TypeError

section \<open>The platform: typed arrays and DataView at byte offset 0\<close>

text \<open>
  The source calls \<open>Uint8Array.prototype.set\<close> and the accessors of \<open>DataView\<close>, always at
  offset 0. They are modelled after ECMAScript: a store of \<open>n\<close> bytes converts the value
  modulo \<open>2 ^ (8 * n)\<close> and writes its bytes in the requested order, a load reads them
  back as an unsigned or a two's complement integer, and both raise \<open>RangeError\<close> when
  the view is shorter than \<open>n\<close> bytes.
\<close>

definition typedArraySet :: "byte list \<Rightarrow> byte list \<Rightarrow> error + byte list" where
  "typedArraySet target src =
     (if length src > length target then Inl RangeError
      else Inr (src @ drop (length src) target))"

definition numericToRawBytes :: "nat \<Rightarrow> int \<Rightarrow> bool \<Rightarrow> byte list" where
  "numericToRawBytes n v littleEndian =
     (let rawBytes = map (\<lambda>i. word_of_int (drop_bit (8 * i) v)) [0..<n]
      in if littleEndian then rawBytes else rev rawBytes)"

definition rawBytesToUnsigned :: "byte list \<Rightarrow> bool \<Rightarrow> int" where
  "rawBytesToUnsigned rawBytes littleEndian =
     horner_sum uint 256 (if littleEndian then rawBytes else rev rawBytes)"

definition rawBytesToSigned :: "byte list \<Rightarrow> bool \<Rightarrow> int" where
  "rawBytesToSigned rawBytes littleEndian =
     (let u = rawBytesToUnsigned rawBytes littleEndian
      in if u \<ge> 2 ^ (8 * length rawBytes - 1) then u - 2 ^ (8 * length rawBytes) else u)"

definition setViewValue :: "nat \<Rightarrow> byte list \<Rightarrow> int \<Rightarrow> bool \<Rightarrow> error + byte list" where
  "setViewValue n view v littleEndian =
     (if n > length view then Inl RangeError
      else Inr (numericToRawBytes n v littleEndian @ drop n view))"

definition getViewUnsigned :: "nat \<Rightarrow> byte list \<Rightarrow> bool \<Rightarrow> error + int" where
  "getViewUnsigned n view littleEndian =
     (if n > length view then Inl RangeError
      else Inr (rawBytesToUnsigned (take n view) littleEndian))"

definition getViewSigned :: "nat \<Rightarrow> byte list \<Rightarrow> bool \<Rightarrow> error + int" where
  "getViewSigned n view littleEndian =
     (if n > length view then Inl RangeError
      else Inr (rawBytesToSigned (take n view) littleEndian))"

section \<open>BitOpsValueReader (src/value-readers/BitOpsValueReader.ts)\<close>

text \<open>
  \<open>x << k\<close> on numbers converts \<open>x\<close> to a 32-bit integer and shifts by \<open>k mod 32\<close>;
  \<open>|\<close> works on 32-bit integers; \<open>r >>> 0\<close> reads the 32 bits as an unsigned number.
\<close>

definition bufferToUnsignedNumber :: "byte list \<Rightarrow> Endian \<Rightarrow> int" where
  "bufferToUnsignedNumber buffer endian =
     (let result =
        (if endian = Little then
           fold (\<lambda>i result. result OR push_bit ((i * 8) mod 32) (ucast (buffer ! i) :: int32))
             [0..<length buffer] 0
         else
           fold (\<lambda>i result. push_bit 8 result OR (ucast (buffer ! i) :: int32))
             [0..<length buffer] 0)
      in uint result)"

text \<open>
  \<open>toSignedNumber\<close> receives \<open>buf[0]\<close> from \<open>readInt8\<close>, which is \<open>undefined\<close> on an empty
  buffer: \<open>undefined < 0\<close> is false and \<open>undefined & mask\<close> is 0.
\<close>

definition toInt32 :: "int option \<Rightarrow> int32" where
  "toInt32 u = (case u of None \<Rightarrow> 0 | Some k \<Rightarrow> word_of_int k)"

definition toSignedNumber :: "int option \<Rightarrow> nat \<Rightarrow> error + int" where
  "toSignedNumber u bits =
     (if (case u of None \<Rightarrow> False | Some k \<Rightarrow> k < 0) then Inl RangeError
      else
        (let mask = sint (push_bit (bits mod 32) (1 :: int32)) - 1;
             shift = nat ((32 - int bits) mod 32)
         in Inr (sint (signed_drop_bit shift (push_bit shift (toInt32 u AND word_of_int mask))))))"

function bigIntLoopBig :: "byte list \<Rightarrow> nat \<Rightarrow> int \<Rightarrow> int" where
  "bigIntLoopBig buffer i result =
     (if i < length buffer then
        (let slice = take 4 (drop i buffer);
             part = bufferToUnsignedNumber slice Big
         in bigIntLoopBig buffer (i + 4) (push_bit (length slice * 8) result OR part))
      else result)"
  by pat_completeness auto
termination
  by (relation "measure (\<lambda>(buffer, i, result). length buffer - i)") auto

declare bigIntLoopBig.simps [simp del]

function bigIntLoopLittle :: "byte list \<Rightarrow> nat \<Rightarrow> nat \<Rightarrow> int \<Rightarrow> int" where
  "bigIntLoopLittle buffer i shift result =
     (if i < length buffer then
        (let slice = take 4 (drop i buffer);
             part = bufferToUnsignedNumber slice Little
         in bigIntLoopLittle buffer (i + 4) (shift + length slice * 8)
              (result OR push_bit shift part))
      else result)"
  by pat_completeness auto
termination
  by (relation "measure (\<lambda>(buffer, i, shift, result). length buffer - i)") auto

declare bigIntLoopLittle.simps [simp del]

definition bufferToUnsignedBigInt :: "byte list \<Rightarrow> Endian \<Rightarrow> int" where
  "bufferToUnsignedBigInt buffer endian =
     (if endian = Big then bigIntLoopBig buffer 0 0
      else bigIntLoopLittle buffer 0 0 0)"

text \<open>\<open>buf[0]\<close>: \<open>undefined\<close> when the buffer is empty.\<close>

definition index0 :: "byte list \<Rightarrow> int option" where
  "index0 buf = (case buf of [] \<Rightarrow> None | b # _ \<Rightarrow> Some (uint b))"

definition BitOps_readUint8 :: "byte list \<Rightarrow> int option" where
  "BitOps_readUint8 buf = index0 buf"

definition BitOps_readUint16 :: "byte list \<Rightarrow> Endian \<Rightarrow> int" where
  "BitOps_readUint16 buf endian = bufferToUnsignedNumber buf endian"

definition BitOps_readUint32 :: "byte list \<Rightarrow> Endian \<Rightarrow> int" where
  "BitOps_readUint32 buf endian = bufferToUnsignedNumber buf endian"

definition BitOps_readUint64 :: "byte list \<Rightarrow> Endian \<Rightarrow> int" where
  "BitOps_readUint64 buf endian = bufferToUnsignedBigInt buf endian"

definition BitOps_readInt8 :: "byte list \<Rightarrow> error + int" where
  "BitOps_readInt8 buf = toSignedNumber (index0 buf) 8"

definition BitOps_readInt16 :: "byte list \<Rightarrow> Endian \<Rightarrow> error + int" where
  "BitOps_readInt16 buf endian = toSignedNumber (Some (bufferToUnsignedNumber buf endian)) 16"

definition BitOps_readInt32 :: "byte list \<Rightarrow> Endian \<Rightarrow> int" where
  "BitOps_readInt32 buf endian = sint (word_of_int (BitOps_readUint32 buf endian) :: int32)"

definition BitOps_readInt64 :: "byte list \<Rightarrow> Endian \<Rightarrow> int" where
  "BitOps_readInt64 buf endian =
     (let u = bufferToUnsignedBigInt buf endian;
          sign = push_bit 63 (1 :: int);
          mask = push_bit 64 (1 :: int) - 1;
          ui = u AND mask
      in if ui AND sign \<noteq> 0 then ui - push_bit 64 1 else ui)"

section \<open>DataViewValueReader (src/value-readers/DataViewValueReader.ts)\<close>

text \<open>
  The instance owns an 8-byte scratch buffer; every operation copies the argument to its
  front and reads through a DataView over it. The scratch buffer is the state of the
  instance: each operation returns it with the value.
\<close>

definition loadBuffer :: "byte list \<Rightarrow> byte list \<Rightarrow> error + byte list" where
  "loadBuffer scratchBuf buf = typedArraySet scratchBuf buf"

definition DataView_read ::
  "(byte list \<Rightarrow> bool \<Rightarrow> error + int) \<Rightarrow> byte list \<Rightarrow> byte list \<Rightarrow> bool \<Rightarrow> error + (int \<times> byte list)" where
  "DataView_read getter scratchBuf buf littleEndian =
     (case loadBuffer scratchBuf buf of
        Inl e \<Rightarrow> Inl e
      | Inr scratch' \<Rightarrow>
          (case getter scratch' littleEndian of
             Inl e \<Rightarrow> Inl e
           | Inr v \<Rightarrow> Inr (v, scratch')))"

definition DataView_readUint8 :: "byte list \<Rightarrow> byte list \<Rightarrow> error + (int \<times> byte list)" where
  "DataView_readUint8 scratchBuf buf = DataView_read (getViewUnsigned 1) scratchBuf buf False"

definition DataView_readInt8 :: "byte list \<Rightarrow> byte list \<Rightarrow> error + (int \<times> byte list)" where
  "DataView_readInt8 scratchBuf buf = DataView_read (getViewSigned 1) scratchBuf buf False"

definition DataView_readUint16 :: "byte list \<Rightarrow> byte list \<Rightarrow> Endian \<Rightarrow> error + (int \<times> byte list)" where
  "DataView_readUint16 scratchBuf buf endian =
     DataView_read (getViewUnsigned 2) scratchBuf buf (endian = Little)"

definition DataView_readInt16 :: "byte list \<Rightarrow> byte list \<Rightarrow> Endian \<Rightarrow> error + (int \<times> byte list)" where
  "DataView_readInt16 scratchBuf buf endian =
     DataView_read (getViewSigned 2) scratchBuf buf (endian = Little)"

definition DataView_readUint32 :: "byte list \<Rightarrow> byte list \<Rightarrow> Endian \<Rightarrow> error + (int \<times> byte list)" where
  "DataView_readUint32 scratchBuf buf endian =
     DataView_read (getViewUnsigned 4) scratchBuf buf (endian = Little)"

definition DataView_readInt32 :: "byte list \<Rightarrow> byte list \<Rightarrow> Endian \<Rightarrow> error + (int \<times> byte list)" where
  "DataView_readInt32 scratchBuf buf endian =
     DataView_read (getViewSigned 4) scratchBuf buf (endian = Little)"

definition DataView_readUint64 :: "byte list \<Rightarrow> byte list \<Rightarrow> Endian \<Rightarrow> error + (int \<times> byte list)" where
  "DataView_readUint64 scratchBuf buf endian =
     DataView_read (getViewUnsigned 8) scratchBuf buf (endian = Little)"

definition DataView_readInt64 :: "byte list \<Rightarrow> byte list \<Rightarrow> Endian \<Rightarrow> error + (int \<times> byte list)" where
  "DataView_readInt64 scratchBuf buf endian =
     DataView_read (getViewSigned 8) scratchBuf buf (endian = Little)"

section \<open>PerformanceValueReader (src/value-readers/PerformanceValueReader.ts)\<close>

text \<open>
  The hybrid owns a BitOpsValueReader, which has no state, and a DataViewValueReader,
  whose scratch buffer is the argument \<open>dv\<close>.
\<close>

definition Performance_readInt8 :: "byte list \<Rightarrow> error + int" where
  "Performance_readInt8 buf = BitOps_readInt8 buf"

definition Performance_readInt16 :: "byte list \<Rightarrow> Endian \<Rightarrow> error + int" where
  "Performance_readInt16 buf endian = BitOps_readInt16 buf endian"

definition Performance_readInt32 :: "byte list \<Rightarrow> byte list \<Rightarrow> Endian \<Rightarrow> error + (int \<times> byte list)" where
  "Performance_readInt32 dv buf endian = DataView_readInt32 dv buf endian"

definition Performance_readInt64 :: "byte list \<Rightarrow> byte list \<Rightarrow> Endian \<Rightarrow> error + (int \<times> byte list)" where
  "Performance_readInt64 dv buf endian = DataView_readInt64 dv buf endian"

definition Performance_readUint8 :: "byte list \<Rightarrow> int option" where
  "Performance_readUint8 buf = BitOps_readUint8 buf"

definition Performance_readUint16 :: "byte list \<Rightarrow> Endian \<Rightarrow> int" where
  "Performance_readUint16 buf endian = BitOps_readUint16 buf endian"

definition Performance_readUint32 :: "byte list \<Rightarrow> byte list \<Rightarrow> Endian \<Rightarrow> error + (int \<times> byte list)" where
  "Performance_readUint32 dv buf endian = DataView_readUint32 dv buf endian"

definition Performance_readUint64 :: "byte list \<Rightarrow> byte list \<Rightarrow> Endian \<Rightarrow> error + (int \<times> byte list)" where
  "Performance_readUint64 dv buf endian = DataView_readUint64 dv buf endian"

section \<open>The ValueReader interface\<close>

text \<open>
  An instance of the interface is one of the three classes, with its scratch buffer where
  it has one. \<open>ValueReader_read\<close> is the method call \<open>valueReader.readX(buf, endian)\<close>: it
  selects the method by the kind of number and returns the value (\<open>None\<close> for
  \<open>undefined\<close>) with the instance after the call. The 8-bit methods take no byte order.
\<close>

datatype numKind = Uint8 | Int8 | Uint16 | Int16 | Uint32 | Int32 | Uint64 | Int64

datatype ValueReader =
    BitOpsValueReader
  | DataViewValueReader "byte list"
  | PerformanceValueReader "byte list"

fun width :: "numKind \<Rightarrow> nat" where
  "width Uint8 = 1" | "width Int8 = 1"
| "width Uint16 = 2" | "width Int16 = 2"
| "width Uint32 = 4" | "width Int32 = 4"
| "width Uint64 = 8" | "width Int64 = 8"

fun isSigned :: "numKind \<Rightarrow> bool" where
  "isSigned Int8 = True" | "isSigned Int16 = True"
| "isSigned Int32 = True" | "isSigned Int64 = True"
| "isSigned _ = False"

definition number :: "error + int \<Rightarrow> error + int option" where
  "number r = (case r of Inl e \<Rightarrow> Inl e | Inr v \<Rightarrow> Inr (Some v))"

definition withScratch :: "error + (int \<times> byte list) \<Rightarrow> error + (int option \<times> byte list)" where
  "withScratch r = (case r of Inl e \<Rightarrow> Inl e | Inr (v, scratch) \<Rightarrow> Inr (Some v, scratch))"

definition keepScratch :: "byte list \<Rightarrow> error + int option \<Rightarrow> error + (int option \<times> byte list)" where
  "keepScratch dv r = (case r of Inl e \<Rightarrow> Inl e | Inr v \<Rightarrow> Inr (v, dv))"

fun BitOps_read :: "numKind \<Rightarrow> byte list \<Rightarrow> Endian \<Rightarrow> error + int option" where
  "BitOps_read Uint8 buf endian = Inr (BitOps_readUint8 buf)"
| "BitOps_read Int8 buf endian = number (BitOps_readInt8 buf)"
| "BitOps_read Uint16 buf endian = Inr (Some (BitOps_readUint16 buf endian))"
| "BitOps_read Int16 buf endian = number (BitOps_readInt16 buf endian)"
| "BitOps_read Uint32 buf endian = Inr (Some (BitOps_readUint32 buf endian))"
| "BitOps_read Int32 buf endian = Inr (Some (BitOps_readInt32 buf endian))"
| "BitOps_read Uint64 buf endian = Inr (Some (BitOps_readUint64 buf endian))"
| "BitOps_read Int64 buf endian = Inr (Some (BitOps_readInt64 buf endian))"

fun DataView_readKind :: "numKind \<Rightarrow> byte list \<Rightarrow> byte list \<Rightarrow> Endian \<Rightarrow> error + (int option \<times> byte list)" where
  "DataView_readKind Uint8 scratchBuf buf endian = withScratch (DataView_readUint8 scratchBuf buf)"
| "DataView_readKind Int8 scratchBuf buf endian = withScratch (DataView_readInt8 scratchBuf buf)"
| "DataView_readKind Uint16 scratchBuf buf endian = withScratch (DataView_readUint16 scratchBuf buf endian)"
| "DataView_readKind Int16 scratchBuf buf endian = withScratch (DataView_readInt16 scratchBuf buf endian)"
| "DataView_readKind Uint32 scratchBuf buf endian = withScratch (DataView_readUint32 scratchBuf buf endian)"
| "DataView_readKind Int32 scratchBuf buf endian = withScratch (DataView_readInt32 scratchBuf buf endian)"
| "DataView_readKind Uint64 scratchBuf buf endian = withScratch (DataView_readUint64 scratchBuf buf endian)"
| "DataView_readKind Int64 scratchBuf buf endian = withScratch (DataView_readInt64 scratchBuf buf endian)"

fun Performance_read :: "numKind \<Rightarrow> byte list \<Rightarrow> byte list \<Rightarrow> Endian \<Rightarrow> error + (int option \<times> byte list)" where
  "Performance_read Uint8 dv buf endian = keepScratch dv (Inr (Performance_readUint8 buf))"
| "Performance_read Int8 dv buf endian = keepScratch dv (number (Performance_readInt8 buf))"
| "Performance_read Uint16 dv buf endian = keepScratch dv (Inr (Some (Performance_readUint16 buf endian)))"
| "Performance_read Int16 dv buf endian = keepScratch dv (number (Performance_readInt16 buf endian))"
| "Performance_read Uint32 dv buf endian = withScratch (Performance_readUint32 dv buf endian)"
| "Performance_read Int32 dv buf endian = withScratch (Performance_readInt32 dv buf endian)"
| "Performance_read Uint64 dv buf endian = withScratch (Performance_readUint64 dv buf endian)"
| "Performance_read Int64 dv buf endian = withScratch (Performance_readInt64 dv buf endian)"

fun ValueReader_read ::
  "ValueReader \<Rightarrow> numKind \<Rightarrow> byte list \<Rightarrow> Endian \<Rightarrow> error + (int option \<times> ValueReader)" where
  "ValueReader_read BitOpsValueReader k buf endian =
     (case BitOps_read k buf endian of
        Inl e \<Rightarrow> Inl e
      | Inr v \<Rightarrow> Inr (v, BitOpsValueReader))"
| "ValueReader_read (DataViewValueReader scratchBuf) k buf endian =
     (case DataView_readKind k scratchBuf buf endian of
        Inl e \<Rightarrow> Inl e
      | Inr (v, scratch') \<Rightarrow> Inr (v, DataViewValueReader scratch'))"
| "ValueReader_read (PerformanceValueReader dv) k buf endian =
     (case Performance_read k dv buf endian of
        Inl e \<Rightarrow> Inl e
      | Inr (v, dv') \<Rightarrow> Inr (v, PerformanceValueReader dv'))"

text \<open>What a call returns or throws, without the instance.\<close>

definition outcome :: "error + ('a \<times> 'b) \<Rightarrow> error + 'a" where
  "outcome r = (case r of Inl e \<Rightarrow> Inl e | Inr (v, _) \<Rightarrow> Inr v)"

text \<open>
  The scratch buffer of an instance is allocated with 8 bytes and never resized.
\<close>

fun scratchAllocated :: "ValueReader \<Rightarrow> bool" where
  "scratchAllocated BitOpsValueReader = True"
| "scratchAllocated (DataViewValueReader scratchBuf) = (length scratchBuf = 8)"
| "scratchAllocated (PerformanceValueReader dv) = (length dv = 8)"

text \<open>
  The methods that fold over every byte of their argument: the 16-, 32- and 64-bit
  methods of BitOpsValueReader, and the 16-bit ones of the hybrid.
\<close>

fun foldsWholeBuffer :: "ValueReader \<Rightarrow> numKind \<Rightarrow> bool" where
  "foldsWholeBuffer BitOpsValueReader k = (width k > 1)"
| "foldsWholeBuffer (DataViewValueReader scratchBuf) k = False"
| "foldsWholeBuffer (PerformanceValueReader dv) k = (width k = 2)"

definition admissible :: "ValueReader \<Rightarrow> numKind \<Rightarrow> byte list \<Rightarrow> bool" where
  "admissible vr k buf =
     (if foldsWholeBuffer vr k then length buf = width k
      else width k \<le> length buf \<and> length buf \<le> 8)"

text \<open>
  Three notions of the specification, which the code is compared with. \<open>decode\<close> is the
  integer that the bytes stand for according to the platform: their value in the given
  byte order, read as two's complement for the signed kinds. \<open>base256\<close> follows the words
  of the specification, the integer whose base-256 digits are the bytes in the given
  order: with big-endian order the first byte is the most significant digit, with
  little-endian order the least. \<open>representable\<close> gives the values of a kind: from 0 to
  \<open>2 ^ W - 1\<close> for an unsigned kind of \<open>W\<close> bits, from \<open>- 2 ^ (W - 1)\<close> to \<open>2 ^ (W - 1) - 1\<close>
  for a signed one.
\<close>

definition decode :: "numKind \<Rightarrow> byte list \<Rightarrow> Endian \<Rightarrow> int" where
  "decode k bytes endian =
     (if isSigned k then rawBytesToSigned bytes (endian = Little)
      else rawBytesToUnsigned bytes (endian = Little))"

definition base256 :: "byte list \<Rightarrow> Endian \<Rightarrow> int" where
  "base256 bytes endian =
     (\<Sum>i = 0..<length bytes.
        uint (bytes ! i) * 256 ^ (if endian = Big then length bytes - 1 - i else i))"

definition representable :: "numKind \<Rightarrow> int \<Rightarrow> bool" where
  "representable k v =
     (if isSigned k then - (2 ^ (8 * width k - 1)) \<le> v \<and> v < 2 ^ (8 * width k - 1)
      else 0 \<le> v \<and> v < 2 ^ (8 * width k))"

section \<open>StreamWriter (src/writer.ts)\<close>

text \<open>
  The writer owns an 8-byte buffer and the sink, modelled by the list of the chunks
  written so far. \<open>buffer.set([value], 0)\<close> stores \<open>value mod 256\<close>; the DataView setters
  store the value modulo \<open>2 ^ (8 * n)\<close>, the same bytes for the signed and the unsigned
  setter of a width.
\<close>

record StreamWriter =
  writerBuffer :: "byte list"
  sink :: "byte list list"

definition newStreamWriter :: StreamWriter where
  "newStreamWriter = \<lparr>writerBuffer = replicate 8 0, sink = []\<rparr>"

definition StreamWriter_write :: "byte list \<Rightarrow> StreamWriter \<Rightarrow> nat \<times> StreamWriter" where
  "StreamWriter_write buf w = (length buf, w\<lparr>sink := sink w @ [buf]\<rparr>)"

definition writeVia :: "error + byte list \<Rightarrow> nat \<Rightarrow> StreamWriter \<Rightarrow> error + (nat \<times> StreamWriter)" where
  "writeVia stored n w =
     (case stored of
        Inl e \<Rightarrow> Inl e
      | Inr b \<Rightarrow> Inr (StreamWriter_write (take n b) (w\<lparr>writerBuffer := b\<rparr>)))"

definition writeUint8 :: "int \<Rightarrow> StreamWriter \<Rightarrow> error + (nat \<times> StreamWriter)" where
  "writeUint8 v w = writeVia (typedArraySet (writerBuffer w) [word_of_int v]) 1 w"

definition writeInt8 :: "int \<Rightarrow> StreamWriter \<Rightarrow> error + (nat \<times> StreamWriter)" where
  "writeInt8 v w = writeVia (setViewValue 1 (writerBuffer w) v False) 1 w"

definition writeUint16 :: "int \<Rightarrow> Endian \<Rightarrow> StreamWriter \<Rightarrow> error + (nat \<times> StreamWriter)" where
  "writeUint16 v endian w = writeVia (setViewValue 2 (writerBuffer w) v (endian = Little)) 2 w"

definition writeInt16 :: "int \<Rightarrow> Endian \<Rightarrow> StreamWriter \<Rightarrow> error + (nat \<times> StreamWriter)" where
  "writeInt16 v endian w = writeVia (setViewValue 2 (writerBuffer w) v (endian = Little)) 2 w"

definition writeUint32 :: "int \<Rightarrow> Endian \<Rightarrow> StreamWriter \<Rightarrow> error + (nat \<times> StreamWriter)" where
  "writeUint32 v endian w = writeVia (setViewValue 4 (writerBuffer w) v (endian = Little)) 4 w"

definition writeInt32 :: "int \<Rightarrow> Endian \<Rightarrow> StreamWriter \<Rightarrow> error + (nat \<times> StreamWriter)" where
  "writeInt32 v endian w = writeVia (setViewValue 4 (writerBuffer w) v (endian = Little)) 4 w"

definition writeUint64 :: "int \<Rightarrow> Endian \<Rightarrow> StreamWriter \<Rightarrow> error + (nat \<times> StreamWriter)" where
  "writeUint64 v endian w = writeVia (setViewValue 8 (writerBuffer w) v (endian = Little)) 8 w"

definition writeInt64 :: "int \<Rightarrow> Endian \<Rightarrow> StreamWriter \<Rightarrow> error + (nat \<times> StreamWriter)" where
  "writeInt64 v endian w = writeVia (setViewValue 8 (writerBuffer w) v (endian = Little)) 8 w"

fun writeNumber :: "numKind \<Rightarrow> int \<Rightarrow> Endian \<Rightarrow> StreamWriter \<Rightarrow> error + (nat \<times> StreamWriter)" where
  "writeNumber Uint8 v endian w = writeUint8 v w"
| "writeNumber Int8 v endian w = writeInt8 v w"
| "writeNumber Uint16 v endian w = writeUint16 v endian w"
| "writeNumber Int16 v endian w = writeInt16 v endian w"
| "writeNumber Uint32 v endian w = writeUint32 v endian w"
| "writeNumber Int32 v endian w = writeInt32 v endian w"
| "writeNumber Uint64 v endian w = writeUint64 v endian w"
| "writeNumber Int64 v endian w = writeInt64 v endian w"

section \<open>StreamReader (src/reader.ts)\<close>

text \<open>
  The stream that the reader pulls from is the list of the chunks it will still
  deliver, empty chunks included: \<open>reader.read()\<close> yields the head, and reports \<open>done\<close>
  on the empty list, again and again. A stream is thus one that ends, as the contract of
  the chunk source requires. Byte counts are natural numbers. The default value reader
  of the constructor is an argument here; \<open>readString\<close> and \<open>close\<close> are left out.
\<close>

record StreamReader =
  reader :: "byte list list"
  buffer :: "byte list"
  bufferOffset :: nat
  valueReader :: ValueReader
  bytesRead :: nat

definition newStreamReader :: "byte list list \<Rightarrow> ValueReader \<Rightarrow> StreamReader" where
  "newStreamReader stream vr =
     \<lparr>reader = stream, buffer = [], bufferOffset = 0, valueReader = vr, bytesRead = 0\<rparr>"

function ensureBufferFilledToAtLeast :: "nat \<Rightarrow> StreamReader \<Rightarrow> (error + unit) \<times> StreamReader" where
  "ensureBufferFilledToAtLeast count s =
     (if int (length (buffer s)) - int (bufferOffset s) < int count then
        (case reader s of
           [] \<Rightarrow> (Inl EndOfStream, s)
         | value # rest \<Rightarrow>
             ensureBufferFilledToAtLeast count (s\<lparr>reader := rest, buffer := buffer s @ value\<rparr>))
      else (Inr (), s))"
  by pat_completeness auto
termination
  by (relation "measure (\<lambda>(count, s). length (reader s))") auto

declare ensureBufferFilledToAtLeast.simps [simp del]

text \<open>\<open>n >>> 1\<close> converts \<open>n\<close> to an unsigned 32-bit integer and halves it.\<close>

definition trimBuffer :: "StreamReader \<Rightarrow> StreamReader" where
  "trimBuffer s =
     (if bufferOffset s > (length (buffer s) mod 2 ^ 32) div 2 then
        s\<lparr>buffer := drop (bufferOffset s) (buffer s), bufferOffset := 0\<rparr>
      else s)"

definition slice_bytes :: "byte list \<Rightarrow> nat \<Rightarrow> nat \<Rightarrow> byte list" where
  "slice_bytes b start stop = take (stop - start) (drop start b)"

definition read :: "nat \<Rightarrow> StreamReader \<Rightarrow> (error + byte list) \<times> StreamReader" where
  "read len s =
     (case ensureBufferFilledToAtLeast len s of
        (Inl e, s') \<Rightarrow> (Inl e, s')
      | (Inr _, s') \<Rightarrow>
          (let value = slice_bytes (buffer s') (bufferOffset s') (bufferOffset s' + len);
               s'' = s'\<lparr>bufferOffset := bufferOffset s' + len, bytesRead := bytesRead s' + len\<rparr>
           in (Inr value, trimBuffer s'')))"

text \<open>
  The reader that never compacts: \<open>read\<close> without the call of \<open>trimBuffer\<close>, as in the
  StreamReader of src/stream.ts.
\<close>

definition readNoTrim :: "nat \<Rightarrow> StreamReader \<Rightarrow> (error + byte list) \<times> StreamReader" where
  "readNoTrim len s =
     (case ensureBufferFilledToAtLeast len s of
        (Inl e, s') \<Rightarrow> (Inl e, s')
      | (Inr _, s') \<Rightarrow>
          (let value = slice_bytes (buffer s') (bufferOffset s') (bufferOffset s' + len);
               s'' = s'\<lparr>bufferOffset := bufferOffset s' + len, bytesRead := bytesRead s' + len\<rparr>
           in (Inr value, s'')))"

text \<open>
  The typed reads: \<open>read\<close> of the width, then the method of the value reader. They are
  parametrised by the \<open>read\<close> they delegate to.
\<close>

definition readNumberWith ::
  "(nat \<Rightarrow> StreamReader \<Rightarrow> (error + byte list) \<times> StreamReader) \<Rightarrow>
   numKind \<Rightarrow> Endian \<Rightarrow> StreamReader \<Rightarrow> (error + int option) \<times> StreamReader" where
  "readNumberWith rd k endian s =
     (case rd (width k) s of
        (Inl e, s') \<Rightarrow> (Inl e, s')
      | (Inr buf, s') \<Rightarrow>
          (case ValueReader_read (valueReader s') k buf endian of
             Inl e \<Rightarrow> (Inl e, s')
           | Inr (v, vr') \<Rightarrow> (Inr v, s'\<lparr>valueReader := vr'\<rparr>)))"

definition readUint8 :: "StreamReader \<Rightarrow> (error + int option) \<times> StreamReader" where
  "readUint8 s = readNumberWith read Uint8 Big s"

definition readInt8 :: "StreamReader \<Rightarrow> (error + int option) \<times> StreamReader" where
  "readInt8 s = readNumberWith read Int8 Big s"

definition readUint16 :: "Endian \<Rightarrow> StreamReader \<Rightarrow> (error + int option) \<times> StreamReader" where
  "readUint16 endian s = readNumberWith read Uint16 endian s"

definition readInt16 :: "Endian \<Rightarrow> StreamReader \<Rightarrow> (error + int option) \<times> StreamReader" where
  "readInt16 endian s = readNumberWith read Int16 endian s"

definition readUint32 :: "Endian \<Rightarrow> StreamReader \<Rightarrow> (error + int option) \<times> StreamReader" where
  "readUint32 endian s = readNumberWith read Uint32 endian s"

definition readInt32 :: "Endian \<Rightarrow> StreamReader \<Rightarrow> (error + int option) \<times> StreamReader" where
  "readInt32 endian s = readNumberWith read Int32 endian s"

definition readUint64 :: "Endian \<Rightarrow> StreamReader \<Rightarrow> (error + int option) \<times> StreamReader" where
  "readUint64 endian s = readNumberWith read Uint64 endian s"

definition readInt64 :: "Endian \<Rightarrow> StreamReader \<Rightarrow> (error + int option) \<times> StreamReader" where
  "readInt64 endian s = readNumberWith read Int64 endian s"

text \<open>
  \<open>readUntilEof\<close>: the loop pushes every chunk that \<open>reader.read()\<close> still yields and stops
  at \<open>done\<close>; the chunks are then copied, one after the other, into the result.
\<close>

fun pullUntilDone :: "byte list list \<Rightarrow> byte list list \<Rightarrow> byte list list \<times> byte list list" where
  "pullUntilDone chunks [] = (chunks, [])"
| "pullUntilDone chunks (value # rest) = pullUntilDone (chunks @ [value]) rest"

definition readUntilEof :: "StreamReader \<Rightarrow> byte list \<times> StreamReader" where
  "readUntilEof s =
     (case pullUntilDone [drop (bufferOffset s) (buffer s)] (reader s) of
        (chunks, rd') \<Rightarrow>
          (let len = sum_list (map length chunks)
           in (concat chunks,
               s\<lparr>reader := rd', bytesRead := bytesRead s + len, bufferOffset := length (buffer s)\<rparr>)))"

subsection \<open>Sequences of calls\<close>

datatype request = Read nat | ReadNumber numKind Endian

datatype response = Bytes "byte list" | Value "int option"

fun requested :: "request \<Rightarrow> nat" where
  "requested (Read n) = n"
| "requested (ReadNumber k endian) = width k"

fun performWith ::
  "(nat \<Rightarrow> StreamReader \<Rightarrow> (error + byte list) \<times> StreamReader) \<Rightarrow>
   request \<Rightarrow> StreamReader \<Rightarrow> (error + response) \<times> StreamReader" where
  "performWith rd (Read n) s =
     (case rd n s of
        (Inl e, s') \<Rightarrow> (Inl e, s')
      | (Inr bytes, s') \<Rightarrow> (Inr (Bytes bytes), s'))"
| "performWith rd (ReadNumber k endian) s =
     (case readNumberWith rd k endian s of
        (Inl e, s') \<Rightarrow> (Inl e, s')
      | (Inr v, s') \<Rightarrow> (Inr (Value v), s'))"

text \<open>
  A sequence of calls, each on the reader that the call before left, failed or not; the
  observation of a call is what it returned or threw and the \<open>bytesRead\<close> after it.
\<close>

fun performAllWith ::
  "(nat \<Rightarrow> StreamReader \<Rightarrow> (error + byte list) \<times> StreamReader) \<Rightarrow>
   request list \<Rightarrow> StreamReader \<Rightarrow> ((error + response) \<times> nat) list \<times> StreamReader" where
  "performAllWith rd [] s = ([], s)"
| "performAllWith rd (req # reqs) s =
     (case performWith rd req s of
        (r, s') \<Rightarrow>
          (case performAllWith rd reqs s' of
             (rs, s'') \<Rightarrow> ((r, bytesRead s') # rs, s'')))"

definition allSucceeded :: "((error + response) \<times> nat) list \<Rightarrow> bool" where
  "allSucceeded obs = list_all (\<lambda>ob. \<not> isl (fst ob)) obs"

text \<open>The bytes not yet handed out: the rest of the window, then the rest of the stream.\<close>

definition unread :: "StreamReader \<Rightarrow> byte list" where
  "unread s = drop (bufferOffset s) (buffer s) @ concat (reader s)"

definition readerInv :: "StreamReader \<Rightarrow> bool" where
  "readerInv s = (bufferOffset s \<le> length (buffer s))"

text \<open>
  Two devices of the proofs. A read function serves the unread bytes when, on a reader
  whose cursor is inside its window, it returns the next \<open>n\<close> unread bytes and counts
  them if there are that many, and fails and counts nothing if not. Two readers have the
  same view when they agree on the unread bytes, the counter and the value reader.
\<close>

definition servesUnread :: "(nat \<Rightarrow> StreamReader \<Rightarrow> (error + byte list) \<times> StreamReader) \<Rightarrow> bool" where
  "servesUnread rd =
     (\<forall>n s. readerInv s \<longrightarrow>
        fst (rd n s) = (if n \<le> length (unread s) then Inr (take n (unread s)) else Inl EndOfStream) \<and>
        unread (snd (rd n s)) = (if n \<le> length (unread s) then drop n (unread s) else unread s) \<and>
        bytesRead (snd (rd n s)) = (if n \<le> length (unread s) then bytesRead s + n else bytesRead s) \<and>
        valueReader (snd (rd n s)) = valueReader s \<and>
        readerInv (snd (rd n s)))"

definition sameView :: "StreamReader \<Rightarrow> StreamReader \<Rightarrow> bool" where
  "sameView s t = (unread s = unread t \<and> bytesRead s = bytesRead t \<and> valueReader s = valueReader t)"

section \<open>uint8ArrayFromBufferSource (src/buffer.ts)\<close>

text \<open>
  An ArrayBuffer is an object with an identity; the heap gives the bytes of each. A view
  (a typed array or a DataView) is a buffer, a byte offset and a byte length. The
  arguments are told apart as the function does: an ArrayBuffer, a Uint8Array, another
  view, or a value that is neither.
\<close>

datatype jsBuffer = ArrayBuffer nat | SharedArrayBuffer nat

record ArrayBufferView =
  viewBuffer :: jsBuffer
  byteOffset :: nat
  byteLength :: nat

datatype BufferSource =
    ArrayBufferArg nat
  | Uint8ArrayArg ArrayBufferView
  | OtherViewArg ArrayBufferView
  | NoBufferArg

definition newUint8Array :: "(jsBuffer \<Rightarrow> byte list) \<Rightarrow> jsBuffer \<Rightarrow> ArrayBufferView" where
  "newUint8Array heap b = \<lparr>viewBuffer = b, byteOffset = 0, byteLength = length (heap b)\<rparr>"

definition uint8ArrayFromBufferSource ::
  "(jsBuffer \<Rightarrow> byte list) \<Rightarrow> BufferSource \<Rightarrow> error + ArrayBufferView" where
  "uint8ArrayFromBufferSource heap bufferSource =
     (case bufferSource of
        ArrayBufferArg b \<Rightarrow> Inr (newUint8Array heap (ArrayBuffer b))
      | Uint8ArrayArg v \<Rightarrow> Inr v
      | OtherViewArg v \<Rightarrow>
          (case viewBuffer v of
             ArrayBuffer b \<Rightarrow> Inr (newUint8Array heap (ArrayBuffer b))
           | SharedArrayBuffer b \<Rightarrow> Inl TypeError)
      | NoBufferArg \<Rightarrow> Inl TypeError)"

definition viewBytes :: "(jsBuffer \<Rightarrow> byte list) \<Rightarrow> ArrayBufferView \<Rightarrow> byte list" where
  "viewBytes heap v = take (byteLength v) (drop (byteOffset v) (heap (viewBuffer v)))"

text \<open>The bytes that the argument itself exposes.\<close>

definition sourceBytes :: "(jsBuffer \<Rightarrow> byte list) \<Rightarrow> BufferSource \<Rightarrow> byte list option" where
  "sourceBytes heap bufferSource =
     (case bufferSource of
        ArrayBufferArg b \<Rightarrow> Some (heap (ArrayBuffer b))
      | Uint8ArrayArg v \<Rightarrow> Some (viewBytes heap v)
      | OtherViewArg v \<Rightarrow> Some (viewBytes heap v)
      | NoBufferArg \<Rightarrow> None)"

section \<open>Lemmas about the codec\<close>

subsection \<open>Base-256 values\<close>

lemma pow256: "(256::int) ^ n = 2 ^ (8 * n)"
  by (simp add: power_mult)

lemma horner_nonneg: "0 \<le> horner_sum uint (256::int) (bs :: byte list)"
  by (induction bs) simp_all

lemma horner_bound: "horner_sum uint (256::int) (bs :: byte list) < 256 ^ length bs"
proof (induction bs)
  case Nil
  show ?case by simp
next
  case (Cons b bs)
  have "uint b < 256" using uint_bounded [of b] by simp
  moreover have "horner_sum uint (256::int) bs + 1 \<le> 256 ^ length bs" using Cons by simp
  then have "256 * (horner_sum uint (256::int) bs + 1) \<le> 256 * 256 ^ length bs"
    by (rule mult_left_mono) simp
  ultimately show ?case by (simp add: algebra_simps)
qed

lemma rawBytesToUnsigned_nonneg: "0 \<le> rawBytesToUnsigned bs le"
  using horner_nonneg [of bs] horner_nonneg [of "rev bs"]
  by (simp add: rawBytesToUnsigned_def)

lemma rawBytesToUnsigned_less: "rawBytesToUnsigned bs le < 2 ^ (8 * length bs)"
  using horner_bound [of bs] horner_bound [of "rev bs"]
  by (simp add: rawBytesToUnsigned_def pow256)

lemma rawBytesToUnsigned_single: "rawBytesToUnsigned [b] le = uint b"
  by (simp add: rawBytesToUnsigned_def)

lemma fold_index: "fold (\<lambda>i. f (xs ! i)) [0..<length xs] a = fold f xs a"
proof (induction xs arbitrary: a rule: rev_induct)
  case Nil
  show ?case by simp
next
  case (snoc x xs)
  have "fold (\<lambda>i. f ((xs @ [x]) ! i)) [0..<length xs] a = fold (\<lambda>i. f (xs ! i)) [0..<length xs] a"
    by (rule fold_cong) (simp_all add: nth_append)
  then show ?case using snoc by simp
qed

subsection \<open>bufferToUnsignedNumber on at most four bytes\<close>

lemma be_step: "(push_bit 8 r OR ucast (b::byte) :: int32) = word_of_int (uint r * 256 + uint b)"
proof -
  have "(push_bit 8 r OR ucast b :: int32) = push_bit 8 r + ucast b"
    by (rule disjunctive_add_eq_or [symmetric]) (auto simp add: bit_eq_iff bit_simps dest: bit_imp_le_length)
  also have "\<dots> = word_of_int (uint r * 256 + uint b)"
    by (simp add: push_bit_eq_mult)
  finally show ?thesis .
qed

lemma be_fold:
  "fold (\<lambda>b r. push_bit 8 r OR (ucast (b::byte) :: int32)) bs (word_of_int k) =
   word_of_int (fold (\<lambda>b k. k * 256 + uint b) bs k)"
proof (induction bs arbitrary: k)
  case Nil
  show ?case by simp
next
  case (Cons b bs)
  have "(word_of_int (uint (word_of_int k :: int32) * 256 + uint b) :: int32) = word_of_int (k * 256 + uint b)"
    by simp
  then show ?case using Cons [of "k * 256 + uint b"] by (simp add: be_step)
qed

lemma fold_horner:
  "fold (\<lambda>b k. k * 256 + uint b) (bs :: byte list) k = k * 256 ^ length bs + horner_sum uint 256 (rev bs)"
  by (induction bs arbitrary: k) (simp_all add: horner_sum_append algebra_simps)

lemma le_step:
  assumes "0 \<le> H" "H < 256 ^ n"
  shows "(word_of_int H OR push_bit (n * 8) (ucast (b::byte)) :: int32) = word_of_int (H + 256 ^ n * uint b)"
proof -
  have H: "take_bit (8 * n) H = H"
    using assms by (simp add: take_bit_int_eq_self pow256)
  have "(word_of_int H OR push_bit (n * 8) (ucast b) :: int32) = word_of_int H + push_bit (n * 8) (ucast b)"
  proof (rule disjunctive_add_eq_or [symmetric], rule bit_eqI)
    fix m
    have "bit (word_of_int (take_bit (8 * n) H) :: int32) m \<Longrightarrow> m < 8 * n"
      by (simp add: bit_simps)
    then show "bit (word_of_int H AND push_bit (n * 8) (ucast b) :: int32) m = bit (0 :: int32) m"
      unfolding H by (auto simp add: bit_simps)
  qed
  also have "\<dots> = word_of_int (H + 256 ^ n * uint b)"
    by (simp add: push_bit_eq_mult pow256 mult.commute)
  finally show ?thesis .
qed

lemma le_fold:
  "n \<le> length buf \<Longrightarrow> n \<le> 4 \<Longrightarrow>
   fold (\<lambda>i result. result OR push_bit ((i * 8) mod 32) (ucast ((buf :: byte list) ! i) :: int32)) [0..<n] 0 =
   word_of_int (horner_sum uint 256 (take n buf))"
proof (induction n)
  case 0
  show ?case by simp
next
  case (Suc n)
  have n: "n < length buf" "n < 4" using Suc.prems by simp_all
  then have m: "(n * 8) mod 32 = n * 8" by simp
  have t: "take (Suc n) buf = take n buf @ [buf ! n]"
    using n by (simp add: take_Suc_conv_app_nth)
  have l: "length (take n buf) = n" using n by simp
  show ?case
    using Suc.IH n le_step [OF horner_nonneg, of "take n buf" n "buf ! n"] horner_bound [of "take n buf"]
    by (simp add: m t horner_sum_append l del: upt_Suc add: upt_Suc_append)
qed

lemma uint_word_of_int_small:
  assumes "0 \<le> k" "k < 256 ^ n" "n \<le> 4"
  shows "uint (word_of_int k :: int32) = k"
proof -
  have "(256::int) ^ n \<le> 256 ^ 4" using assms(3) by (intro power_increasing) simp_all
  then have "k < 2 ^ 32" using assms(2) by simp
  then show ?thesis using assms(1) by (simp add: uint_word_of_int)
qed

lemma bufferToUnsignedNumber_eq:
  assumes "length buf \<le> 4"
  shows "bufferToUnsignedNumber buf endian = rawBytesToUnsigned buf (endian = Little)"
proof (cases endian)
  case Little
  have "fold (\<lambda>i result. result OR push_bit ((i * 8) mod 32) (ucast (buf ! i) :: int32)) [0..<length buf] 0 =
        word_of_int (horner_sum uint 256 buf)"
    using le_fold [of "length buf" buf] assms by simp
  then show ?thesis
    using Little assms uint_word_of_int_small [OF horner_nonneg horner_bound, of buf]
    by (simp add: bufferToUnsignedNumber_def rawBytesToUnsigned_def)
next
  case Big
  have "fold (\<lambda>i result. push_bit 8 result OR (ucast (buf ! i) :: int32)) [0..<length buf] 0 =
        fold (\<lambda>b r. push_bit 8 r OR (ucast b :: int32)) buf 0"
    by (rule fold_index [of "\<lambda>b r. push_bit 8 r OR (ucast b :: int32)"])
  also have "\<dots> = word_of_int (horner_sum uint 256 (rev buf))"
    using be_fold [of buf 0] by (simp add: fold_horner)
  finally show ?thesis
    using Big assms uint_word_of_int_small [OF horner_nonneg horner_bound, of "rev buf"]
    by (simp add: bufferToUnsignedNumber_def rawBytesToUnsigned_def)
qed

subsection \<open>bufferToUnsignedBigInt\<close>

lemma push_or_small:
  assumes "0 \<le> p" "p < 2 ^ n"
  shows "push_bit n (r::int) OR p = r * 2 ^ n + p"
proof -
  have "take_bit n p = p" using assms by (simp add: take_bit_int_eq_self)
  then have "push_bit n r OR p = concat_bit n p r"
    by (simp add: concat_bit_def or.commute)
  also have "\<dots> = r * 2 ^ n + p"
    using \<open>take_bit n p = p\<close> by (simp add: concat_bit_eq push_bit_eq_mult)
  finally show ?thesis .
qed

lemma or_push_small:
  assumes "0 \<le> r" "r < 2 ^ n"
  shows "(r::int) OR push_bit n p = r + 2 ^ n * p"
  using push_or_small [OF assms, of p] by (simp add: or.commute mult.commute add.commute)

lemma chunk_split: "i < length buf \<Longrightarrow> drop i buf = take 4 (drop i buf) @ drop (i + 4) buf"
  by (metis add.commute append_take_drop_id drop_drop)

lemma bigIntLoopBig_eq:
  "bigIntLoopBig buf i result =
     result * 256 ^ (length buf - i) + horner_sum uint 256 (rev (drop i buf))"
proof (induction buf i result rule: bigIntLoopBig.induct)
  case (1 buf i result)
  show ?case
  proof (cases "i < length buf")
    case False
    then show ?thesis by (subst bigIntLoopBig.simps) simp
  next
    case True
    define sl where "sl = take 4 (drop i buf)"
    define part where "part = bufferToUnsignedNumber sl Big"
    have len: "length sl \<le> 4" by (simp add: sl_def)
    have part: "part = horner_sum uint 256 (rev sl)"
      using bufferToUnsignedNumber_eq [OF len, of Big] by (simp add: part_def rawBytesToUnsigned_def)
    have b: "0 \<le> part" "part < 2 ^ (length sl * 8)"
      using horner_nonneg [of "rev sl"] horner_bound [of "rev sl"]
      by (simp_all add: part pow256 mult.commute)
    have step: "push_bit (length sl * 8) result OR part = result * 256 ^ length sl + part"
      using push_or_small [OF b, of result] by (simp add: pow256 mult.commute)
    have split: "drop i buf = sl @ drop (i + 4) buf"
      using chunk_split [OF True] by (simp add: sl_def)
    have lens: "length buf - i = length sl + (length buf - (i + 4))"
      using True by (simp add: sl_def)
    have "bigIntLoopBig buf i result =
          bigIntLoopBig buf (i + 4) (push_bit (length sl * 8) result OR part)"
      using True by (subst bigIntLoopBig.simps) (simp add: sl_def part_def Let_def)
    also have "\<dots> = (result * 256 ^ length sl + part) * 256 ^ (length buf - (i + 4))
                    + horner_sum uint 256 (rev (drop (i + 4) buf))"
      using "1.IH" [OF True sl_def part_def] by (simp add: step)
    also have "\<dots> = result * 256 ^ (length buf - i) + horner_sum uint 256 (rev (drop i buf))"
    proof -
      have "horner_sum uint (256::int) (rev (sl @ drop (i + 4) buf)) =
            horner_sum uint 256 (rev (drop (i + 4) buf)) + 256 ^ (length buf - (i + 4)) * part"
        unfolding rev_append horner_sum_append part by simp
      then have h: "horner_sum uint (256::int) (rev (drop i buf)) =
            horner_sum uint 256 (rev (drop (i + 4) buf)) + 256 ^ (length buf - (i + 4)) * part"
        using split by simp
      show ?thesis unfolding h lens power_add by (simp only: algebra_simps)
    qed
    finally show ?thesis .
  qed
qed

lemma bigIntLoopLittle_eq:
  "0 \<le> result \<Longrightarrow> result < 2 ^ shift \<Longrightarrow>
   bigIntLoopLittle buf i shift result = result + 2 ^ shift * horner_sum uint 256 (drop i buf)"
proof (induction buf i shift result rule: bigIntLoopLittle.induct)
  case (1 buf i shift result)
  show ?case
  proof (cases "i < length buf")
    case False
    then show ?thesis by (subst bigIntLoopLittle.simps) simp
  next
    case True
    define sl where "sl = take 4 (drop i buf)"
    define part where "part = bufferToUnsignedNumber sl Little"
    have len: "length sl \<le> 4" by (simp add: sl_def)
    have part: "part = horner_sum uint 256 sl"
      using bufferToUnsignedNumber_eq [OF len, of Little] by (simp add: part_def rawBytesToUnsigned_def)
    have b: "0 \<le> part" "part + 1 \<le> 2 ^ (length sl * 8)"
      using horner_nonneg [of sl] horner_bound [of sl]
      by (simp_all add: part pow256 mult.commute)
    have step: "result OR push_bit shift part = result + 2 ^ shift * part"
      using or_push_small [OF "1.prems", of part] .
    have nn: "0 \<le> result + 2 ^ shift * part" using "1.prems"(1) b(1) by simp
    have "2 ^ shift * (part + 1) \<le> (2::int) ^ shift * 2 ^ (length sl * 8)"
      using b(2) by (rule mult_left_mono) simp
    then have ub: "result + 2 ^ shift * part < 2 ^ (shift + length sl * 8)"
      using "1.prems"(2) by (simp add: power_add algebra_simps)
    have split: "drop i buf = sl @ drop (i + 4) buf"
      using chunk_split [OF True] by (simp add: sl_def)
    have "bigIntLoopLittle buf i shift result =
          bigIntLoopLittle buf (i + 4) (shift + length sl * 8) (result OR push_bit shift part)"
      using True by (subst bigIntLoopLittle.simps) (simp add: sl_def part_def Let_def)
    also have "\<dots> = (result + 2 ^ shift * part)
                    + 2 ^ (shift + length sl * 8) * horner_sum uint 256 (drop (i + 4) buf)"
      using "1.IH" [OF True sl_def part_def] nn ub by (simp add: step)
    also have "\<dots> = result + 2 ^ shift * horner_sum uint 256 (drop i buf)"
    proof -
      have "horner_sum uint (256::int) (sl @ drop (i + 4) buf) =
            part + 2 ^ (length sl * 8) * horner_sum uint 256 (drop (i + 4) buf)"
        unfolding horner_sum_append part by (simp add: pow256 mult.commute)
      then have h: "horner_sum uint (256::int) (drop i buf) =
            part + 2 ^ (length sl * 8) * horner_sum uint 256 (drop (i + 4) buf)"
        using split by simp
      show ?thesis unfolding h power_add by (simp only: algebra_simps)
    qed
    finally show ?thesis .
  qed
qed

lemma bufferToUnsignedBigInt_eq:
  "bufferToUnsignedBigInt buf endian = rawBytesToUnsigned buf (endian = Little)"
  using bigIntLoopBig_eq [of buf 0 0] bigIntLoopLittle_eq [of 0 0 buf 0]
  by (cases endian) (simp_all add: bufferToUnsignedBigInt_def rawBytesToUnsigned_def)

subsection \<open>Two's complement\<close>

lemma signed_take_bit_cases:
  fixes u :: int
  assumes "0 \<le> u" "u < 2 ^ Suc n"
  shows "signed_take_bit n u = (if u \<ge> 2 ^ n then u - 2 ^ Suc n else u)"
proof (cases "u \<ge> 2 ^ n")
  case False
  then show ?thesis using assms by (simp add: signed_take_bit_int_eq_self)
next
  case True
  have "take_bit (Suc n) u = take_bit (Suc n) (u - 2 ^ Suc n)"
    by (simp add: take_bit_eq_mod)
  then have "signed_take_bit n u = signed_take_bit n (u - 2 ^ Suc n)"
    by (simp only: signed_take_bit_eq_iff_take_bit_eq)
  also have "\<dots> = u - 2 ^ Suc n"
    using True assms by (intro signed_take_bit_int_eq_self) simp_all
  finally show ?thesis using True by simp
qed

lemma rawBytesToSigned_eq:
  assumes "bs \<noteq> []"
  shows "rawBytesToSigned bs le = signed_take_bit (8 * length bs - 1) (rawBytesToUnsigned bs le)"
proof -
  obtain n where n: "8 * length bs = Suc n"
    using assms by (cases bs) simp_all
  show ?thesis
    using signed_take_bit_cases [OF rawBytesToUnsigned_nonneg, of bs le n] rawBytesToUnsigned_less [of bs le]
    by (simp add: rawBytesToSigned_def n Let_def)
qed

lemma min_shift: "m < 32 \<Longrightarrow> min 31 (31 + n - m) + m - 31 = min m (n::nat)"
  by arith

lemma shift_sign_extend:
  "m < 32 \<Longrightarrow> sint (signed_drop_bit (32 - Suc m) (push_bit (32 - Suc m) (w :: int32))) = signed_take_bit m (uint w)"
  by (rule bit_eqI) (auto simp add: bit_simps sint_signed_drop_bit_eq signed_push_bit_eq min_shift)

lemma toSignedNumber_8: "0 \<le> u \<Longrightarrow> toSignedNumber (Some u) 8 = Inr (signed_take_bit 7 u)"
proof -
  assume "0 \<le> u"
  have "(255 :: int32) = mask 8" by (simp add: mask_eq_exp_minus_1)
  moreover have "(word_of_int u AND mask 8 :: int32) = word_of_int (take_bit 8 u)"
    by (rule bit_eqI) (auto simp add: bit_simps)
  ultimately have m: "(word_of_int u AND 255 :: int32) = word_of_int (take_bit 8 u)"
    by simp
  have "sint (signed_drop_bit 24 (push_bit 24 (word_of_int (take_bit 8 u) :: int32))) = signed_take_bit 7 u"
    using shift_sign_extend [of 7 "word_of_int (take_bit 8 u)"]
    by (simp add: uint_word_of_int take_bit_eq_mod signed_take_bit_eq_iff_take_bit_eq)
  then show ?thesis using \<open>0 \<le> u\<close> by (simp add: toSignedNumber_def toInt32_def m del: push_bit_and)
qed

lemma toSignedNumber_16: "0 \<le> u \<Longrightarrow> toSignedNumber (Some u) 16 = Inr (signed_take_bit 15 u)"
proof -
  assume "0 \<le> u"
  have "(65535 :: int32) = mask 16" by (simp add: mask_eq_exp_minus_1)
  moreover have "(word_of_int u AND mask 16 :: int32) = word_of_int (take_bit 16 u)"
    by (rule bit_eqI) (auto simp add: bit_simps)
  ultimately have m: "(word_of_int u AND 65535 :: int32) = word_of_int (take_bit 16 u)"
    by simp
  have "sint (signed_drop_bit 16 (push_bit 16 (word_of_int (take_bit 16 u) :: int32))) = signed_take_bit 15 u"
    using shift_sign_extend [of 15 "word_of_int (take_bit 16 u)"]
    by (simp add: uint_word_of_int take_bit_eq_mod signed_take_bit_eq_iff_take_bit_eq)
  then show ?thesis using \<open>0 \<le> u\<close> by (simp add: toSignedNumber_def toInt32_def m del: push_bit_and)
qed

lemma BitOps_readInt64_eq:
  "BitOps_readInt64 buf endian = signed_take_bit 63 (bufferToUnsignedBigInt buf endian)"
proof -
  define u where "u = bufferToUnsignedBigInt buf endian"
  have m: "push_bit 64 (1::int) - 1 = mask 64"
    by (simp add: mask_eq_exp_minus_1 push_bit_eq_mult)
  have p: "push_bit 64 (1::int) = 2 ^ Suc 63"
    by (simp add: push_bit_eq_mult)
  show ?thesis
    unfolding BitOps_readInt64_def u_def [symmetric] Let_def m
    unfolding p take_bit_eq_mask [symmetric] bit_iff_and_push_bit_not_eq_0 [symmetric]
    by (simp add: signed_take_bit_eq_take_bit_minus bit_simps)
qed

subsection \<open>Encoding, then decoding\<close>

lemma take_bit_split:
  "take_bit (m + n) (k::int) = take_bit m k + 2 ^ m * take_bit n (drop_bit m k)"
proof -
  have "take_bit (m + n) k = concat_bit m k (take_bit n (drop_bit m k))"
    by (rule bit_eqI) (auto simp add: bit_simps)
  then show ?thesis by (simp add: concat_bit_eq push_bit_eq_mult)
qed

lemma uint_byte_of_int: "uint (word_of_int x :: byte) = take_bit 8 x"
  by (simp add: uint_word_of_int take_bit_eq_mod)

lemma horner_raw_bytes:
  "horner_sum uint 256 (map (\<lambda>i. word_of_int (drop_bit (8 * i) v) :: byte) [0..<n]) = take_bit (8 * n) v"
proof (induction n)
  case 0
  show ?case by simp
next
  case (Suc n)
  have "take_bit (8 * n + 8) v = take_bit (8 * n) v + 2 ^ (8 * n) * take_bit 8 (drop_bit (8 * n) v)"
    by (rule take_bit_split)
  then show ?case
    using Suc by (simp add: horner_sum_append uint_byte_of_int pow256 add.commute)
qed

lemma length_numericToRawBytes [simp]: "length (numericToRawBytes n v le) = n"
  by (simp add: numericToRawBytes_def Let_def)

lemma rawBytesToUnsigned_numericToRawBytes:
  "rawBytesToUnsigned (numericToRawBytes n v le) le = take_bit (8 * n) v"
  by (simp add: rawBytesToUnsigned_def numericToRawBytes_def Let_def horner_raw_bytes)

lemma width_pos: "0 < width k"
  by (cases k) simp_all

lemma width_le_8: "width k \<le> 8"
  by (cases k) simp_all

lemma decode_numericToRawBytes:
  assumes "representable k v"
  shows "decode k (numericToRawBytes (width k) v (endian = Little)) endian = v"
proof (cases "isSigned k")
  case False
  then show ?thesis
    using assms
    by (simp add: decode_def representable_def rawBytesToUnsigned_numericToRawBytes take_bit_int_eq_self)
next
  case True
  have ne: "numericToRawBytes (width k) v (endian = Little) \<noteq> []"
    using width_pos [of k] by (metis length_numericToRawBytes length_0_conv less_numeral_extra(3))
  have w: "\<not> 8 * width k \<le> 8 * width k - 1" using width_pos [of k] by simp
  have "signed_take_bit (8 * width k - 1) v = v"
    using assms True by (simp add: representable_def signed_take_bit_int_eq_self)
  then show ?thesis
    using True w
    by (simp add: decode_def rawBytesToSigned_eq [OF ne] rawBytesToUnsigned_numericToRawBytes
        signed_take_bit_take_bit)
qed

subsection \<open>What the three value readers return\<close>

lemma rawBytesToUnsigned_one: "length bs = 1 \<Longrightarrow> rawBytesToUnsigned bs le = rawBytesToUnsigned bs True"
  by (cases bs) (simp_all add: rawBytesToUnsigned_def)

lemma rawBytesToSigned_one: "length bs = 1 \<Longrightarrow> rawBytesToSigned bs le = rawBytesToSigned bs True"
  using rawBytesToUnsigned_one [of bs le] by (simp add: rawBytesToSigned_def)

lemma decode_one: "width k = 1 \<Longrightarrow> length bs = 1 \<Longrightarrow> decode k bs endian = decode k bs Little"
  using rawBytesToUnsigned_one [of bs "endian = Little"] rawBytesToSigned_one [of bs "endian = Little"]
  by (simp add: decode_def)

lemma BitOps_read_decode:
  assumes "length buf = width k"
  shows "BitOps_read k buf endian = Inr (Some (decode k buf endian))"
proof -
  have ne: "buf \<noteq> []" using assms width_pos [of k] by auto
  have nn: "0 \<le> rawBytesToUnsigned buf (endian = Little)" by (rule rawBytesToUnsigned_nonneg)
  show ?thesis
  proof (cases k)
    case Uint8
    then obtain b where "buf = [b]" using assms by (cases buf) simp_all
    then show ?thesis
      using Uint8 by (simp add: BitOps_readUint8_def index0_def decode_def rawBytesToUnsigned_single)
  next
    case Int8
    then obtain b where b: "buf = [b]" using assms by (cases buf) simp_all
    have "toSignedNumber (Some (uint b)) 8 = Inr (signed_take_bit 7 (uint b))"
      by (rule toSignedNumber_8) simp
    then show ?thesis
      using Int8 b rawBytesToSigned_eq [of "[b]" "endian = Little"]
      by (simp add: BitOps_readInt8_def index0_def decode_def rawBytesToUnsigned_single number_def)
  next
    case Uint16
    then show ?thesis
      using assms by (simp add: BitOps_readUint16_def decode_def bufferToUnsignedNumber_eq)
  next
    case Int16
    then show ?thesis
      using assms nn rawBytesToSigned_eq [OF ne, of "endian = Little"]
      by (simp add: BitOps_readInt16_def decode_def bufferToUnsignedNumber_eq toSignedNumber_16 number_def)
  next
    case Uint32
    then show ?thesis
      using assms by (simp add: BitOps_readUint32_def decode_def bufferToUnsignedNumber_eq)
  next
    case Int32
    then show ?thesis
      using assms rawBytesToSigned_eq [OF ne, of "endian = Little"]
      by (simp add: BitOps_readInt32_def BitOps_readUint32_def decode_def bufferToUnsignedNumber_eq
          sint_sbintrunc')
  next
    case Uint64
    then show ?thesis
      by (simp add: BitOps_readUint64_def decode_def bufferToUnsignedBigInt_eq)
  next
    case Int64
    then show ?thesis
      using assms rawBytesToSigned_eq [OF ne, of "endian = Little"]
      by (simp add: BitOps_readInt64_eq decode_def bufferToUnsignedBigInt_eq)
  qed
qed

lemma index0_take: "index0 (take (Suc 0) buf) = index0 buf"
  by (cases buf) (simp_all add: index0_def)

lemma BitOps_read_first_byte:
  assumes "width k = 1" "buf \<noteq> []"
  shows "BitOps_read k buf endian = Inr (Some (decode k (take 1 buf) endian))"
proof -
  have "BitOps_read k buf endian = BitOps_read k (take 1 buf) endian"
    using assms(1) by (cases k) (simp_all add: BitOps_readUint8_def BitOps_readInt8_def index0_take)
  moreover have "length (take 1 buf) = width k"
    using assms by (cases buf) simp_all
  ultimately show ?thesis by (simp add: BitOps_read_decode)
qed

lemma DataView_read_loaded:
  assumes "length scratchBuf = 8" "n \<le> length buf" "length buf \<le> 8"
  shows "DataView_read (getViewUnsigned n) scratchBuf buf le =
           Inr (rawBytesToUnsigned (take n buf) le, buf @ drop (length buf) scratchBuf)"
    and "DataView_read (getViewSigned n) scratchBuf buf le =
           Inr (rawBytesToSigned (take n buf) le, buf @ drop (length buf) scratchBuf)"
  using assms
  by (simp_all add: DataView_read_def loadBuffer_def typedArraySet_def getViewUnsigned_def
      getViewSigned_def)

lemma DataView_readKind_decode:
  assumes "length scratchBuf = 8" "width k \<le> length buf" "length buf \<le> 8"
  shows "DataView_readKind k scratchBuf buf endian =
           Inr (Some (decode k (take (width k) buf) endian), buf @ drop (length buf) scratchBuf)"
proof -
  have one: "width k = 1 \<Longrightarrow> decode k (take 1 buf) endian = decode k (take 1 buf) Little"
    using assms(2) by (intro decode_one) simp_all
  have f: "decode k (take 1 buf) Little =
    (if isSigned k then rawBytesToSigned (take 1 buf) False else rawBytesToUnsigned (take 1 buf) False)"
    using assms(2) width_pos [of k]
      rawBytesToSigned_one [of "take 1 buf" False] rawBytesToUnsigned_one [of "take 1 buf" False]
    by (simp add: decode_def)
  show ?thesis
    using assms one f
    by (cases k)
      (simp_all add: DataView_read_loaded withScratch_def decode_def
        DataView_readUint8_def DataView_readInt8_def DataView_readUint16_def DataView_readInt16_def
        DataView_readUint32_def DataView_readInt32_def DataView_readUint64_def DataView_readInt64_def)
qed

lemma ValueReader_read_decode:
  assumes "scratchAllocated vr" "admissible vr k buf"
  shows "outcome (ValueReader_read vr k buf endian) = Inr (Some (decode k (take (width k) buf) endian))"
proof (cases vr)
  case BitOpsValueReader
  show ?thesis
  proof (cases "width k > 1")
    case True
    then show ?thesis
      using assms BitOpsValueReader by (simp add: admissible_def BitOps_read_decode outcome_def)
  next
    case False
    then have w: "width k = 1" using width_pos [of k] by simp
    then have "buf \<noteq> []" using assms BitOpsValueReader by (auto simp add: admissible_def)
    then show ?thesis
      using w BitOpsValueReader by (simp add: BitOps_read_first_byte outcome_def)
  qed
next
  case (DataViewValueReader scratchBuf)
  then show ?thesis
    using assms by (simp add: admissible_def DataView_readKind_decode outcome_def)
next
  case (PerformanceValueReader dv)
  have len: "length dv = 8" using assms PerformanceValueReader by simp
  show ?thesis
  proof (cases "width k = 2")
    case True
    then have "length buf = width k" using assms PerformanceValueReader by (simp add: admissible_def)
    then have b: "BitOps_read k buf endian = Inr (Some (decode k buf endian))"
      by (rule BitOps_read_decode)
    show ?thesis
      using True b \<open>length buf = width k\<close> PerformanceValueReader
      by (cases k)
        (simp_all add: outcome_def keepScratch_def Performance_readUint16_def Performance_readInt16_def)
  next
    case False
    then have a: "width k \<le> length buf" "length buf \<le> 8"
      using assms PerformanceValueReader by (simp_all add: admissible_def)
    show ?thesis
    proof (cases "width k = 1")
      case True
      then have "buf \<noteq> []" using a by auto
      then have b: "BitOps_read k buf endian = Inr (Some (decode k (take 1 buf) endian))"
        using True by (intro BitOps_read_first_byte)
      show ?thesis
        using True b PerformanceValueReader
        by (cases k)
          (simp_all add: outcome_def keepScratch_def Performance_readUint8_def Performance_readInt8_def)
    next
      case w: False
      have d: "DataView_readKind k dv buf endian =
           Inr (Some (decode k (take (width k) buf) endian), buf @ drop (length buf) dv)"
        using len a by (rule DataView_readKind_decode)
      show ?thesis
        using False w d PerformanceValueReader
        by (cases k)
          (simp_all add: outcome_def Performance_readUint32_def Performance_readInt32_def
            Performance_readUint64_def Performance_readInt64_def)
    qed
  qed
qed

lemma numericToRawBytes_one: "numericToRawBytes (Suc 0) v le = [word_of_int v]"
  by (simp add: numericToRawBytes_def Let_def)

lemma writeNumber_eq:
  assumes "length (writerBuffer w) = 8"
  shows "writeNumber k v endian w =
     Inr (width k,
          w\<lparr>writerBuffer := numericToRawBytes (width k) v (endian = Little) @ drop (width k) (writerBuffer w),
            sink := sink w @ [numericToRawBytes (width k) v (endian = Little)]\<rparr>)"
  using assms
  by (cases k)
    (simp_all add: writeUint8_def writeInt8_def writeUint16_def writeInt16_def writeUint32_def
      writeInt32_def writeUint64_def writeInt64_def writeVia_def StreamWriter_write_def
      typedArraySet_def setViewValue_def numericToRawBytes_one)

lemma admissible_exact: "length buf = width k \<Longrightarrow> admissible vr k buf"
  using width_le_8 [of k] by (simp add: admissible_def)

lemma representable_boundaries:
  "representable k 0"
  "representable k (if isSigned k then - (2 ^ (8 * width k - 1)) else 0)"
  "representable k (if isSigned k then 2 ^ (8 * width k - 1) - 1 else 2 ^ (8 * width k) - 1)"
  by (simp_all add: representable_def)

lemma base256_eq: "base256 bs endian = rawBytesToUnsigned bs (endian = Little)"
proof (cases endian)
  case Little
  then show ?thesis
    by (simp add: base256_def rawBytesToUnsigned_def horner_sum_eq_sum)
next
  case Big
  have "horner_sum uint (256::int) (rev bs) = (\<Sum>i = 0..<length bs. uint (rev bs ! i) * 256 ^ i)"
    by (simp add: horner_sum_eq_sum)
  also have "\<dots> = (\<Sum>i = 0..<length bs. uint (bs ! (length bs - 1 - i)) * 256 ^ i)"
    by (rule sum.cong) (simp_all add: rev_nth)
  also have "\<dots> = (\<Sum>i = 0..<length bs. uint (bs ! i) * 256 ^ (length bs - 1 - i))"
    by (rule sum.reindex_bij_witness [of _ "\<lambda>i. length bs - 1 - i" "\<lambda>i. length bs - 1 - i"]) auto
  finally show ?thesis
    using Big by (simp add: base256_def rawBytesToUnsigned_def)
qed

lemma ValueReader_read_scratchAllocated:
  assumes "scratchAllocated vr" "ValueReader_read vr k buf endian = Inr (v, vr')"
  shows "scratchAllocated vr'"
proof -
  have dv: "DataView_readKind k sc buf endian = Inr (x, sc') \<Longrightarrow> length sc = 8 \<Longrightarrow> length sc' = 8" for sc x sc'
    by (cases k)
      (auto simp add: withScratch_def DataView_read_def loadBuffer_def typedArraySet_def
        DataView_readUint8_def DataView_readInt8_def DataView_readUint16_def DataView_readInt16_def
        DataView_readUint32_def DataView_readInt32_def DataView_readUint64_def DataView_readInt64_def
        split: sum.splits if_splits)
  show ?thesis
  proof (cases vr)
    case BitOpsValueReader
    then show ?thesis using assms by (auto split: sum.splits)
  next
    case (DataViewValueReader sc)
    then show ?thesis using assms dv by (auto split: sum.splits)
  next
    case (PerformanceValueReader sc)
    have "Performance_read k sc buf endian = Inr (x, sc') \<Longrightarrow> length sc = 8 \<Longrightarrow> length sc' = 8" for x sc'
      using dv [of sc x sc']
      by (cases k)
        (auto simp add: keepScratch_def Performance_readUint32_def Performance_readInt32_def
          Performance_readUint64_def Performance_readInt64_def split: sum.splits)
    then show ?thesis using assms PerformanceValueReader by (auto split: sum.splits)
  qed
qed

section \<open>Claims about the codec\<close>

text \<open>
  Claim C1. For every kind of number (8, 16, 32 or 64 bits, signed or unsigned) and every
  byte order, the write operation of the StreamWriter hands the sink a chunk of exactly
  the width of the kind, and each of the three value readers decodes that chunk, with
  the same kind and byte order, to the value written, for every representable value
  (\<open>representable_boundaries\<close>: zero, the minimum and the maximum are representable).
\<close>

theorem write_then_decode:
  assumes "length (writerBuffer w) = 8" and "scratchAllocated vr" and "representable k v"
  shows "\<exists>chunk w'. writeNumber k v endian w = Inr (width k, w') \<and> sink w' = sink w @ [chunk] \<and>
           length chunk = width k \<and> outcome (ValueReader_read vr k chunk endian) = Inr (Some v)"
proof -
  define chunk where "chunk = numericToRawBytes (width k) v (endian = Little)"
  have "admissible vr k chunk" by (rule admissible_exact) (simp add: chunk_def)
  then have "outcome (ValueReader_read vr k chunk endian) = Inr (Some (decode k chunk endian))"
    using ValueReader_read_decode [OF assms(2), of k chunk endian] by (simp add: chunk_def)
  then have "outcome (ValueReader_read vr k chunk endian) = Inr (Some v)"
    using decode_numericToRawBytes [OF assms(3), of endian] by (simp add: chunk_def)
  then show ?thesis
    using writeNumber_eq [OF assms(1), of k v endian] by (simp add: chunk_def)
qed

text \<open>Witness for C1: the minimum of the signed 16-bit numbers, little-endian.\<close>

theorem write_then_decode_witness:
  "length (writerBuffer newStreamWriter) = 8 \<and> scratchAllocated (PerformanceValueReader (replicate 8 0)) \<and>
   representable Int16 (- 32768) \<and>
   (\<exists>chunk w'. writeNumber Int16 (- 32768) Little newStreamWriter = Inr (width Int16, w') \<and>
      sink w' = sink newStreamWriter @ [chunk] \<and> length chunk = width Int16 \<and>
      outcome (ValueReader_read (PerformanceValueReader (replicate 8 0)) Int16 chunk Little) = Inr (Some (- 32768)))"
proof -
  have a: "length (writerBuffer newStreamWriter) = 8" by (simp add: newStreamWriter_def)
  have b: "scratchAllocated (PerformanceValueReader (replicate 8 0))" by simp
  have c: "representable Int16 (- 32768)" by (simp add: representable_def)
  show ?thesis using a b c write_then_decode [OF a b c, of Little] by simp
qed

text \<open>
  Claim C2. On a buffer of exactly the width of the kind, BitOpsValueReader,
  DataViewValueReader and PerformanceValueReader return the same number, for each of the
  eight operations and both byte orders, whatever the scratch buffers hold.
\<close>

theorem strategies_agree:
  assumes "length buf = width k" and "length scratchD = 8" and "length scratchP = 8"
  shows "\<exists>v. outcome (ValueReader_read BitOpsValueReader k buf endian) = Inr (Some v) \<and>
             outcome (ValueReader_read (DataViewValueReader scratchD) k buf endian) = Inr (Some v) \<and>
             outcome (ValueReader_read (PerformanceValueReader scratchP) k buf endian) = Inr (Some v)"
proof -
  have d: "outcome (ValueReader_read vr k buf endian) = Inr (Some (decode k buf endian))"
    if "scratchAllocated vr" for vr
    using ValueReader_read_decode [OF that admissible_exact [OF assms(1)], of endian] assms(1) by simp
  have "outcome (ValueReader_read BitOpsValueReader k buf endian) = Inr (Some (decode k buf endian))"
    by (rule d) simp
  moreover have "outcome (ValueReader_read (DataViewValueReader scratchD) k buf endian) =
      Inr (Some (decode k buf endian))"
    by (rule d) (simp add: assms(2))
  moreover have "outcome (ValueReader_read (PerformanceValueReader scratchP) k buf endian) =
      Inr (Some (decode k buf endian))"
    by (rule d) (simp add: assms(3))
  ultimately show ?thesis by blast
qed

text \<open>Witness for C2: a negative 16-bit number, with a scratch buffer that is not zeroed.\<close>

theorem strategies_agree_witness:
  "length [0x80, 0x01 :: byte] = width Int16 \<and> length (replicate 8 (0xAA :: byte)) = 8 \<and>
   length (replicate 8 (0 :: byte)) = 8 \<and>
   (\<exists>v. outcome (ValueReader_read BitOpsValueReader Int16 [0x80, 0x01] Big) = Inr (Some v) \<and>
        outcome (ValueReader_read (DataViewValueReader (replicate 8 0xAA)) Int16 [0x80, 0x01] Big) = Inr (Some v) \<and>
        outcome (ValueReader_read (PerformanceValueReader (replicate 8 0)) Int16 [0x80, 0x01] Big) = Inr (Some v))"
  using strategies_agree [of "[0x80, 0x01]" Int16 "replicate 8 0xAA" "replicate 8 0" Big] by simp

text \<open>
  Claim C6. \<open>bufferToUnsignedBigInt\<close> returns exactly the integer whose base-256 digits
  are the bytes of the buffer in the given order, which lies between 0 and
  \<open>2 ^ (8 * length buf) - 1\<close>: for 8 bytes, every value up to \<open>2 ^ 64 - 1\<close>. The 32-bit
  arithmetic on the 4-byte chunks loses no bit. It holds for a buffer of any length.
\<close>

theorem bufferToUnsignedBigInt_exact:
  "bufferToUnsignedBigInt buf endian = base256 buf endian \<and>
   0 \<le> bufferToUnsignedBigInt buf endian \<and> bufferToUnsignedBigInt buf endian < 2 ^ (8 * length buf)"
  using rawBytesToUnsigned_nonneg [of buf "endian = Little"] rawBytesToUnsigned_less [of buf "endian = Little"]
  by (simp add: bufferToUnsignedBigInt_eq base256_eq)

text \<open>
  Witness for C6: the top bit of both 32-bit chunks set, and the largest 64-bit value.
\<close>

theorem bufferToUnsignedBigInt_exact_witness:
  "bufferToUnsignedBigInt [0x80, 0, 0, 0, 0x80, 0, 0, 1] Big = 0x8000000080000001 \<and>
   bufferToUnsignedBigInt [0xFF, 0xFF, 0xFF, 0xFF, 0xFF, 0xFF, 0xFF, 0xFF] Little = 2 ^ 64 - 1"
  using bufferToUnsignedBigInt_exact [of "[0x80, 0, 0, 0, 0x80, 0, 0, 1]" Big]
    bufferToUnsignedBigInt_exact [of "[0xFF, 0xFF, 0xFF, 0xFF, 0xFF, 0xFF, 0xFF, 0xFF]" Little]
  by (simp add: base256_eq rawBytesToUnsigned_def)

text \<open>
  Claim C10 fails as stated: the 16-bit read of BitOpsValueReader folds over all the bytes
  of its buffer, so two buffers that agree on their first two bytes and differ in a third
  give different results.
\<close>

theorem longer_buffer_counterexample:
  "take (width Uint16) [1, 2, 3 :: byte] = take (width Uint16) [1, 2, 4] \<and>
   outcome (ValueReader_read BitOpsValueReader Uint16 [1, 2, 3] Big) = Inr (Some 66051) \<and>
   outcome (ValueReader_read BitOpsValueReader Uint16 [1, 2, 4] Big) = Inr (Some 66052)"
  by (simp add: outcome_def BitOps_readUint16_def bufferToUnsignedNumber_eq rawBytesToUnsigned_def)

text \<open>
  Claim C10, amended. The result of an operation of width \<open>W\<close> depends only on the first
  \<open>W / 8\<close> bytes of its buffer and the byte order, not on the instance nor on what
  earlier calls left in its scratch buffer, when the buffer is admissible: of exactly
  \<open>W / 8\<close> bytes for the operations that fold over the whole buffer, and of \<open>W / 8\<close> to 8
  bytes for the others. An instance keeps its 8-byte scratch buffer over every call
  (\<open>ValueReader_read_scratchAllocated\<close>).
\<close>

theorem value_depends_on_leading_bytes:
  assumes "scratchAllocated vr1" and "scratchAllocated vr2"
    and "admissible vr1 k buf1" and "admissible vr2 k buf2"
    and "take (width k) buf1 = take (width k) buf2"
  shows "outcome (ValueReader_read vr1 k buf1 endian) = outcome (ValueReader_read vr2 k buf2 endian)"
  using ValueReader_read_decode [OF assms(1,3), of endian] ValueReader_read_decode [OF assms(2,4), of endian]
    assms(5)
  by simp

text \<open>Witness for C10: two instances with different scratch contents, one buffer longer.\<close>

theorem value_depends_on_leading_bytes_witness:
  "scratchAllocated (DataViewValueReader (replicate 8 0xAA)) \<and>
   scratchAllocated (DataViewValueReader (replicate 8 0)) \<and>
   admissible (DataViewValueReader (replicate 8 0xAA)) Uint16 [1, 2, 3] \<and>
   admissible (DataViewValueReader (replicate 8 0)) Uint16 [1, 2] \<and>
   take (width Uint16) [1, 2, 3 :: byte] = take (width Uint16) [1, 2] \<and>
   outcome (ValueReader_read (DataViewValueReader (replicate 8 0xAA)) Uint16 [1, 2, 3] Big) =
   outcome (ValueReader_read (DataViewValueReader (replicate 8 0)) Uint16 [1, 2] Big)"
  using value_depends_on_leading_bytes
    [of "DataViewValueReader (replicate 8 0xAA)" "DataViewValueReader (replicate 8 0)" Uint16
        "[1, 2, 3]" "[1, 2]" Big]
  by (simp add: admissible_def)

section \<open>Lemmas about the reader\<close>

lemma room_iff: "(int a - int b < int c) = (a < b + c)"
  by arith

lemma ensure_fields:
  "bufferOffset (snd (ensureBufferFilledToAtLeast n s)) = bufferOffset s \<and>
   bytesRead (snd (ensureBufferFilledToAtLeast n s)) = bytesRead s \<and>
   valueReader (snd (ensureBufferFilledToAtLeast n s)) = valueReader s \<and>
   buffer (snd (ensureBufferFilledToAtLeast n s)) @ concat (reader (snd (ensureBufferFilledToAtLeast n s))) =
     buffer s @ concat (reader s) \<and>
   length (buffer s) \<le> length (buffer (snd (ensureBufferFilledToAtLeast n s)))"
proof (induction n s rule: ensureBufferFilledToAtLeast.induct)
  case (1 n s)
  show ?case
  proof (cases "length (buffer s) < bufferOffset s + n")
    case False
    then show ?thesis by (subst (1 2 3 4 5 6) ensureBufferFilledToAtLeast.simps) (simp add: room_iff)
  next
    case True
    show ?thesis
    proof (cases "reader s")
      case Nil
      then show ?thesis
        using True by (subst (1 2 3 4 5 6) ensureBufferFilledToAtLeast.simps) (simp add: room_iff)
    next
      case (Cons c cs)
      have step: "ensureBufferFilledToAtLeast n s =
                  ensureBufferFilledToAtLeast n (s\<lparr>reader := cs, buffer := buffer s @ c\<rparr>)"
        using True Cons by (subst ensureBufferFilledToAtLeast.simps) (simp add: room_iff)
      show ?thesis
        unfolding step using "1.IH" [of c cs] True Cons by (simp add: room_iff)
    qed
  qed
qed

lemma ensure_outcome:
  "fst (ensureBufferFilledToAtLeast n s) =
     (if bufferOffset s + n \<le> length (buffer s) + length (concat (reader s)) then Inr () else Inl EndOfStream) \<and>
   (bufferOffset s + n \<le> length (buffer s) + length (concat (reader s)) \<longrightarrow>
      bufferOffset s + n \<le> length (buffer (snd (ensureBufferFilledToAtLeast n s)))) \<and>
   (\<not> bufferOffset s + n \<le> length (buffer s) + length (concat (reader s)) \<longrightarrow>
      reader (snd (ensureBufferFilledToAtLeast n s)) = [] \<and>
      buffer (snd (ensureBufferFilledToAtLeast n s)) = buffer s @ concat (reader s)) \<and>
   (bufferOffset s + n \<le> length (buffer s) \<longrightarrow> ensureBufferFilledToAtLeast n s = (Inr (), s))"
proof (induction n s rule: ensureBufferFilledToAtLeast.induct)
  case (1 n s)
  show ?case
  proof (cases "length (buffer s) < bufferOffset s + n")
    case False
    then show ?thesis by (subst (1 2 3 4 5) ensureBufferFilledToAtLeast.simps) (simp add: room_iff)
  next
    case True
    show ?thesis
    proof (cases "reader s")
      case Nil
      then show ?thesis
        using True by (subst (1 2 3 4 5) ensureBufferFilledToAtLeast.simps) (simp add: room_iff)
    next
      case (Cons c cs)
      have step: "ensureBufferFilledToAtLeast n s =
                  ensureBufferFilledToAtLeast n (s\<lparr>reader := cs, buffer := buffer s @ c\<rparr>)"
        using True Cons by (subst ensureBufferFilledToAtLeast.simps) (simp add: room_iff)
      show ?thesis
        unfolding step using "1.IH" [of c cs] True Cons by (simp add: room_iff add.assoc)
    qed
  qed
qed

lemma length_unread:
  "readerInv s \<Longrightarrow> length (unread s) = length (buffer s) - bufferOffset s + length (concat (reader s))"
  by (simp add: unread_def)

lemma enough_iff:
  "readerInv s \<Longrightarrow>
   (n \<le> length (unread s)) = (bufferOffset s + n \<le> length (buffer s) + length (concat (reader s)))"
  by (auto simp add: unread_def readerInv_def)

lemma ensure_unread:
  assumes "readerInv s"
  shows "unread (snd (ensureBufferFilledToAtLeast n s)) = unread s"
    and "readerInv (snd (ensureBufferFilledToAtLeast n s))"
proof -
  define s' where "s' = snd (ensureBufferFilledToAtLeast n s)"
  have f: "bufferOffset s' = bufferOffset s" "buffer s' @ concat (reader s') = buffer s @ concat (reader s)"
    "length (buffer s) \<le> length (buffer s')"
    using ensure_fields [of n s] by (simp_all add: s'_def)
  have le: "bufferOffset s \<le> length (buffer s)" using assms by (simp add: readerInv_def)
  have "drop (bufferOffset s) (buffer s') @ concat (reader s') =
        drop (bufferOffset s) (buffer s' @ concat (reader s'))"
    using le f(3) by simp
  also have "\<dots> = drop (bufferOffset s) (buffer s) @ concat (reader s)"
    unfolding f(2) using le by simp
  finally show "unread (snd (ensureBufferFilledToAtLeast n s)) = unread s"
    by (simp add: unread_def f(1) s'_def [symmetric])
  show "readerInv (snd (ensureBufferFilledToAtLeast n s))"
    using le f(1,3) by (simp add: readerInv_def s'_def [symmetric])
qed

lemma trimBuffer_keeps:
  "reader (trimBuffer s) = reader s" "bytesRead (trimBuffer s) = bytesRead s"
  "valueReader (trimBuffer s) = valueReader s" "unread (trimBuffer s) = unread s"
  "readerInv s \<Longrightarrow> readerInv (trimBuffer s)"
  by (simp_all add: trimBuffer_def unread_def readerInv_def)

lemma readNoTrim_view:
  assumes "readerInv s"
  shows "fst (readNoTrim n s) = (if n \<le> length (unread s) then Inr (take n (unread s)) else Inl EndOfStream) \<and>
         unread (snd (readNoTrim n s)) = (if n \<le> length (unread s) then drop n (unread s) else unread s) \<and>
         bytesRead (snd (readNoTrim n s)) = (if n \<le> length (unread s) then bytesRead s + n else bytesRead s) \<and>
         valueReader (snd (readNoTrim n s)) = valueReader s \<and>
         reader (snd (readNoTrim n s)) = reader (snd (ensureBufferFilledToAtLeast n s)) \<and>
         readerInv (snd (readNoTrim n s))"
proof -
  obtain r s' where e: "ensureBufferFilledToAtLeast n s = (r, s')"
    by (cases "ensureBufferFilledToAtLeast n s")
  have f: "bufferOffset s' = bufferOffset s" "bytesRead s' = bytesRead s" "valueReader s' = valueReader s"
    using ensure_fields [of n s] by (simp_all add: e)
  have u: "unread s' = unread s" "readerInv s'"
    using ensure_unread [OF assms, of n] by (simp_all add: e)
  have o: "r = (if n \<le> length (unread s) then Inr () else Inl EndOfStream)"
    "n \<le> length (unread s) \<Longrightarrow> bufferOffset s + n \<le> length (buffer s')"
    using ensure_outcome [of n s] enough_iff [OF assms, of n] by (simp_all add: e)
  show ?thesis
  proof (cases "n \<le> length (unread s)")
    case False
    then have "readNoTrim n s = (Inl EndOfStream, s')"
      using o(1) by (simp add: readNoTrim_def e)
    then show ?thesis using False u f by (simp add: e)
  next
    case True
    have r: "readNoTrim n s =
      (Inr (slice_bytes (buffer s') (bufferOffset s') (bufferOffset s' + n)),
       s'\<lparr>bufferOffset := bufferOffset s' + n, bytesRead := bytesRead s' + n\<rparr>)"
      using True o(1) by (simp add: readNoTrim_def e Let_def)
    have le: "n \<le> length (drop (bufferOffset s) (buffer s'))" using o(2) [OF True] by simp
    have "take n (drop (bufferOffset s) (buffer s')) = take n (unread s')"
      using le by (simp add: unread_def f(1))
    then have v: "slice_bytes (buffer s') (bufferOffset s') (bufferOffset s' + n) = take n (unread s)"
      by (simp add: slice_bytes_def f(1) u(1))
    have "drop (bufferOffset s + n) (buffer s') @ concat (reader s') = drop n (unread s')"
      using le by (simp add: unread_def f(1) add.commute)
    moreover have "unread (s'\<lparr>bufferOffset := bufferOffset s' + n, bytesRead := bytesRead s' + n\<rparr>) =
        drop (bufferOffset s + n) (buffer s') @ concat (reader s')"
      by (simp add: unread_def f(1))
    ultimately have w: "unread (s'\<lparr>bufferOffset := bufferOffset s' + n, bytesRead := bytesRead s' + n\<rparr>) =
        drop n (unread s)"
      by (simp only: u(1))
    have i: "readerInv (s'\<lparr>bufferOffset := bufferOffset s' + n, bytesRead := bytesRead s' + n\<rparr>)"
      using o(2) [OF True] by (simp add: readerInv_def f(1))
    show ?thesis
      using True v w i by (simp add: r f e)
  qed
qed

lemma read_readNoTrim:
  "fst (read n s) = fst (readNoTrim n s)"
  "fst (ensureBufferFilledToAtLeast n s) = Inr () \<Longrightarrow> snd (read n s) = trimBuffer (snd (readNoTrim n s))"
  "fst (ensureBufferFilledToAtLeast n s) \<noteq> Inr () \<Longrightarrow> snd (read n s) = snd (readNoTrim n s)"
  by (auto simp add: read_def readNoTrim_def Let_def split: prod.splits sum.splits)

lemma read_view:
  assumes "readerInv s"
  shows "fst (read n s) = (if n \<le> length (unread s) then Inr (take n (unread s)) else Inl EndOfStream) \<and>
         unread (snd (read n s)) = (if n \<le> length (unread s) then drop n (unread s) else unread s) \<and>
         bytesRead (snd (read n s)) = (if n \<le> length (unread s) then bytesRead s + n else bytesRead s) \<and>
         valueReader (snd (read n s)) = valueReader s \<and>
         reader (snd (read n s)) = reader (snd (ensureBufferFilledToAtLeast n s)) \<and>
         readerInv (snd (read n s))"
proof (cases "fst (ensureBufferFilledToAtLeast n s) = Inr ()")
  case True
  show ?thesis
    using readNoTrim_view [OF assms, of n]
    by (simp add: read_readNoTrim(1) read_readNoTrim(2) [OF True] trimBuffer_keeps)
next
  case False
  show ?thesis
    using readNoTrim_view [OF assms, of n]
    by (simp add: read_readNoTrim(1) read_readNoTrim(3) [OF False])
qed

lemma servesUnread_read: "servesUnread read"
  using read_view by (simp add: servesUnread_def)

lemma servesUnread_readNoTrim: "servesUnread readNoTrim"
  using readNoTrim_view by (simp add: servesUnread_def)

lemma servesUnreadD:
  assumes "servesUnread rd" "readerInv s"
  shows "fst (rd n s) = (if n \<le> length (unread s) then Inr (take n (unread s)) else Inl EndOfStream)"
    and "unread (snd (rd n s)) = (if n \<le> length (unread s) then drop n (unread s) else unread s)"
    and "bytesRead (snd (rd n s)) = (if n \<le> length (unread s) then bytesRead s + n else bytesRead s)"
    and "valueReader (snd (rd n s)) = valueReader s"
    and "readerInv (snd (rd n s))"
  using assms by (simp_all add: servesUnread_def)

lemma performWith_Read:
  "fst (performWith rd (Read n) s) = map_sum id Bytes (fst (rd n s))"
  "snd (performWith rd (Read n) s) = snd (rd n s)"
  by (auto split: prod.splits sum.splits)

lemma readNumberWith_eq:
  "readNumberWith rd k endian s =
     (case fst (rd (width k) s) of
        Inl e \<Rightarrow> (Inl e, snd (rd (width k) s))
      | Inr buf \<Rightarrow>
          (case ValueReader_read (valueReader (snd (rd (width k) s))) k buf endian of
             Inl e \<Rightarrow> (Inl e, snd (rd (width k) s))
           | Inr (v, vr') \<Rightarrow> (Inr v, (snd (rd (width k) s))\<lparr>valueReader := vr'\<rparr>)))"
  by (simp add: readNumberWith_def split: prod.splits sum.splits)

lemma ValueReader_read_8bit_endian:
  "width k = 1 \<Longrightarrow> ValueReader_read vr k buf endian = ValueReader_read vr k buf Big"
  by (cases vr; cases k) simp_all

text \<open>The eight typed reads of the class are the requests \<open>ReadNumber\<close> on \<open>read\<close>.\<close>

lemma typed_reads:
  "readUint8 s = readNumberWith read Uint8 endian s"
  "readInt8 s = readNumberWith read Int8 endian s"
  "readUint16 endian s = readNumberWith read Uint16 endian s"
  "readInt16 endian s = readNumberWith read Int16 endian s"
  "readUint32 endian s = readNumberWith read Uint32 endian s"
  "readInt32 endian s = readNumberWith read Int32 endian s"
  "readUint64 endian s = readNumberWith read Uint64 endian s"
  "readInt64 endian s = readNumberWith read Int64 endian s"
  using ValueReader_read_8bit_endian [of Uint8 _ _ endian] ValueReader_read_8bit_endian [of Int8 _ _ endian]
  by (simp_all add: readUint8_def readInt8_def readUint16_def readInt16_def readUint32_def
      readInt32_def readUint64_def readInt64_def readNumberWith_def split: prod.splits sum.splits)

lemma performWith_ReadNumber:
  "fst (performWith rd (ReadNumber k endian) s) = map_sum id Value (fst (readNumberWith rd k endian s))"
  "snd (performWith rd (ReadNumber k endian) s) = snd (readNumberWith rd k endian s)"
  by (auto split: prod.splits sum.splits)

lemma update_valueReader_view [simp]:
  "unread (s\<lparr>valueReader := vr\<rparr>) = unread s"
  "readerInv (s\<lparr>valueReader := vr\<rparr>) = readerInv s"
  by (simp_all add: unread_def readerInv_def)

lemma readNumberWith_same:
  assumes "servesUnread rd1" "servesUnread rd2" "readerInv s" "readerInv t" "sameView s t"
  shows "fst (readNumberWith rd1 k endian s) = fst (readNumberWith rd2 k endian t) \<and>
         sameView (snd (readNumberWith rd1 k endian s)) (snd (readNumberWith rd2 k endian t)) \<and>
         readerInv (snd (readNumberWith rd1 k endian s)) \<and> readerInv (snd (readNumberWith rd2 k endian t))"
proof -
  define s' where "s' = snd (rd1 (width k) s)"
  define t' where "t' = snd (rd2 (width k) t)"
  have v: "unread s = unread t" "bytesRead s = bytesRead t" "valueReader s = valueReader t"
    using assms(5) by (simp_all add: sameView_def)
  have r: "fst (rd1 (width k) s) = fst (rd2 (width k) t)"
    using servesUnreadD(1) [OF assms(1,3), of "width k"] servesUnreadD(1) [OF assms(2,4), of "width k"] v
    by simp
  have sv: "sameView s' t'"
    using servesUnreadD(2-4) [OF assms(1,3), of "width k"] servesUnreadD(2-4) [OF assms(2,4), of "width k"] v
    by (simp add: sameView_def s'_def t'_def)
  have inv: "readerInv s'" "readerInv t'"
    using servesUnreadD(5) [OF assms(1,3), of "width k"] servesUnreadD(5) [OF assms(2,4), of "width k"]
    by (simp_all add: s'_def t'_def)
  have vr: "valueReader s' = valueReader t'" using sv by (simp add: sameView_def)
  show ?thesis
  proof (cases "fst (rd2 (width k) t)")
    case (Inl e)
    then show ?thesis
      using r sv inv by (simp add: readNumberWith_eq s'_def t'_def)
  next
    case (Inr buf)
    show ?thesis
    proof (cases "ValueReader_read (valueReader t') k buf endian")
      case (Inl e)
      then show ?thesis
        using r Inr sv inv vr by (simp add: readNumberWith_eq s'_def [symmetric] t'_def [symmetric])
    next
      case (Inr p)
      obtain x vr' where p: "p = (x, vr')" by (cases p)
      have "sameView (s'\<lparr>valueReader := vr'\<rparr>) (t'\<lparr>valueReader := vr'\<rparr>)"
        using sv by (simp add: sameView_def)
      then show ?thesis
        using r \<open>fst (rd2 (width k) t) = Inr buf\<close> Inr p inv vr
        by (simp add: readNumberWith_eq s'_def [symmetric] t'_def [symmetric])
    qed
  qed
qed

lemma performWith_same:
  assumes "servesUnread rd1" "servesUnread rd2" "readerInv s" "readerInv t" "sameView s t"
  shows "fst (performWith rd1 req s) = fst (performWith rd2 req t) \<and>
         sameView (snd (performWith rd1 req s)) (snd (performWith rd2 req t)) \<and>
         readerInv (snd (performWith rd1 req s)) \<and> readerInv (snd (performWith rd2 req t))"
proof (cases req)
  case (Read n)
  have v: "unread s = unread t" "bytesRead s = bytesRead t" "valueReader s = valueReader t"
    using assms(5) by (simp_all add: sameView_def)
  show ?thesis
    unfolding Read performWith_Read
    using servesUnreadD [OF assms(1,3), of n] servesUnreadD [OF assms(2,4), of n] v
    by (simp add: sameView_def)
next
  case (ReadNumber k endian)
  show ?thesis
    unfolding ReadNumber performWith_ReadNumber
    using readNumberWith_same [OF assms, of k endian] by simp
qed

lemma performAllWith_Cons:
  "fst (performAllWith rd (req # reqs) s) =
     (fst (performWith rd req s), bytesRead (snd (performWith rd req s))) #
     fst (performAllWith rd reqs (snd (performWith rd req s)))"
  "snd (performAllWith rd (req # reqs) s) = snd (performAllWith rd reqs (snd (performWith rd req s)))"
  by (simp_all split: prod.splits)

lemma performAllWith_same:
  assumes "servesUnread rd1" "servesUnread rd2"
  shows "readerInv s \<Longrightarrow> readerInv t \<Longrightarrow> sameView s t \<Longrightarrow>
         fst (performAllWith rd1 reqs s) = fst (performAllWith rd2 reqs t)"
proof (induction reqs arbitrary: s t)
  case Nil
  show ?case by simp
next
  case (Cons req reqs)
  define s' where "s' = snd (performWith rd1 req s)"
  define t' where "t' = snd (performWith rd2 req t)"
  have st: "fst (performWith rd1 req s) = fst (performWith rd2 req t)" "sameView s' t'"
    "readerInv s'" "readerInv t'"
    using performWith_same [OF assms Cons.prems, of req] by (simp_all add: s'_def t'_def)
  have "bytesRead s' = bytesRead t'" using st(2) by (simp add: sameView_def)
  then show ?case
    using Cons.IH [OF st(3,4,2)] st(1)
    by (simp add: performAllWith_Cons s'_def t'_def del: performAllWith.simps)
qed

lemma performWith_counter:
  assumes "servesUnread rd" "readerInv s" "\<not> isl (fst (performWith rd req s))"
  shows "bytesRead (snd (performWith rd req s)) = bytesRead s + requested req"
proof (cases req)
  case (Read n)
  show ?thesis
    using assms(3) servesUnreadD(1,3) [OF assms(1,2), of n]
    unfolding Read performWith_Read by (simp split: if_splits)
next
  case (ReadNumber k endian)
  show ?thesis
    using assms(3) servesUnreadD(1,3) [OF assms(1,2), of "width k"]
    unfolding ReadNumber performWith_ReadNumber readNumberWith_eq
    by (auto split: if_splits sum.splits)
qed

lemma performAllWith_counter:
  assumes "servesUnread rd"
  shows "readerInv s \<Longrightarrow> allSucceeded (fst (performAllWith rd reqs s)) \<Longrightarrow>
         bytesRead (snd (performAllWith rd reqs s)) = bytesRead s + sum_list (map requested reqs)"
proof (induction reqs arbitrary: s)
  case Nil
  show ?case by simp
next
  case (Cons req reqs)
  define s' where "s' = snd (performWith rd req s)"
  have ok: "\<not> isl (fst (performWith rd req s))" "allSucceeded (fst (performAllWith rd reqs s'))"
    using Cons.prems(2)
    by (simp_all add: allSucceeded_def performAllWith_Cons s'_def del: performAllWith.simps)
  have inv: "readerInv s'"
    using performWith_same [OF assms assms Cons.prems(1) Cons.prems(1), of req] 
    by (simp add: sameView_def s'_def)
  have "bytesRead s' = bytesRead s + requested req"
    using performWith_counter [OF assms Cons.prems(1) ok(1)] by (simp add: s'_def)
  then show ?case
    using Cons.IH [OF inv ok(2)]
    by (simp add: performAllWith_Cons s'_def del: performAllWith.simps)
qed

lemma readUntilEof_pull: "pullUntilDone chunks rd = (chunks @ rd, [])"
  by (induction rd arbitrary: chunks) simp_all

lemma readUntilEof_eq:
  "readUntilEof s =
     (unread s, s\<lparr>reader := [], bytesRead := bytesRead s + length (unread s), bufferOffset := length (buffer s)\<rparr>)"
  by (simp add: readUntilEof_def readUntilEof_pull unread_def length_concat)

lemma new_reader [simp]:
  "readerInv (newStreamReader stream vr)"
  "unread (newStreamReader stream vr) = concat stream"
  "bytesRead (newStreamReader stream vr) = 0"
  "valueReader (newStreamReader stream vr) = vr"
  by (simp_all add: newStreamReader_def readerInv_def unread_def)

text \<open>
  The cursor is inside the window on a new reader, and every operation keeps it there.
\<close>

lemma readerInv_preserved:
  "readerInv (newStreamReader stream vr)"
  "readerInv s \<Longrightarrow> readerInv (snd (read n s))"
  "readerInv s \<Longrightarrow> readerInv (snd (readNumberWith read k endian s))"
  "readerInv (snd (readUntilEof s))"
proof -
  show "readerInv (newStreamReader stream vr)" by simp
  show "readerInv s \<Longrightarrow> readerInv (snd (read n s))" using read_view [of s n] by simp
  show "readerInv s \<Longrightarrow> readerInv (snd (readNumberWith read k endian s))"
    using readNumberWith_same [OF servesUnread_read servesUnread_read, of s s k endian]
    by (simp add: sameView_def)
  show "readerInv (snd (readUntilEof s))" by (simp add: readUntilEof_eq readerInv_def)
qed

text \<open>
  The chunk that a write operation hands to the sink, read back by the typed read of
  the same kind and byte order from a reader over the sink.
\<close>

lemma write_then_readNumber:
  assumes "length (writerBuffer w) = 8" and "sink w = []" and "scratchAllocated vr"
    and "representable k v"
  shows "\<exists>w'. writeNumber k v endian w = Inr (width k, w') \<and>
           fst (readNumberWith read k endian (newStreamReader (sink w') vr)) = Inr (Some v)"
proof -
  define chunk where "chunk = numericToRawBytes (width k) v (endian = Little)"
  define s where "s = newStreamReader [chunk] vr"
  have "admissible vr k chunk" by (rule admissible_exact) (simp add: chunk_def)
  then have "outcome (ValueReader_read vr k chunk endian) = Inr (Some (decode k chunk endian))"
    using ValueReader_read_decode [OF assms(3), of k chunk endian] by (simp add: chunk_def)
  then have o: "outcome (ValueReader_read vr k chunk endian) = Inr (Some v)"
    using decode_numericToRawBytes [OF assms(4), of endian] by (simp add: chunk_def)
  have r: "fst (read (width k) s) = Inr chunk" "valueReader (snd (read (width k) s)) = vr"
    using read_view [of s "width k"] by (simp_all add: s_def chunk_def)
  have "fst (readNumberWith read k endian s) = Inr (Some v)"
    using o r by (auto simp add: readNumberWith_eq outcome_def split: sum.splits)
  then show ?thesis
    using writeNumber_eq [OF assms(1), of k v endian] assms(2) by (simp add: s_def chunk_def)
qed

section \<open>Claims about the reader\<close>

text \<open>
  Claim C3. Take two readers that hold the same unread bytes, whatever the chunks in which
  their streams deliver them, with the same counter and value reader (two new readers
  over two chunkings of the same data are such). Any sequence of reads, typed reads
  included, returns the same results on both and shows the same \<open>bytesRead\<close> after each
  call; and when every call of the sequence succeeded, \<open>bytesRead\<close> has grown by the sum
  of the byte counts requested.
\<close>

theorem chunking_not_observable:
  assumes "readerInv s1" and "readerInv s2"
    and "unread s1 = unread s2" and "bytesRead s1 = bytesRead s2" and "valueReader s1 = valueReader s2"
  shows "fst (performAllWith read reqs s1) = fst (performAllWith read reqs s2) \<and>
         (allSucceeded (fst (performAllWith read reqs s1)) \<longrightarrow>
            bytesRead (snd (performAllWith read reqs s1)) = bytesRead s1 + sum_list (map requested reqs))"
proof -
  have "sameView s1 s2" using assms(3-5) by (simp add: sameView_def)
  then show ?thesis
    using performAllWith_same [OF servesUnread_read servesUnread_read assms(1,2), of reqs]
      performAllWith_counter [OF servesUnread_read assms(1), of reqs]
    by simp
qed

text \<open>
  Witness for C3: the bytes 1, 2, 3 in one-byte chunks and in a single chunk, read as a
  \<open>Uint8\<close> and then two raw bytes.
\<close>

theorem chunking_not_observable_witness:
  "readerInv (newStreamReader [[1], [2], [3]] BitOpsValueReader) \<and>
   readerInv (newStreamReader [[1, 2, 3]] BitOpsValueReader) \<and>
   unread (newStreamReader [[1], [2], [3]] BitOpsValueReader) = unread (newStreamReader [[1, 2, 3]] BitOpsValueReader) \<and>
   bytesRead (newStreamReader [[1], [2], [3]] BitOpsValueReader) = bytesRead (newStreamReader [[1, 2, 3]] BitOpsValueReader) \<and>
   valueReader (newStreamReader [[1], [2], [3]] BitOpsValueReader) = valueReader (newStreamReader [[1, 2, 3]] BitOpsValueReader) \<and>
   fst (performAllWith read [ReadNumber Uint8 Big, Read 2] (newStreamReader [[1], [2], [3]] BitOpsValueReader)) =
     [(Inr (Value (Some 1)), 1), (Inr (Bytes [2, 3]), 3)] \<and>
   fst (performAllWith read [ReadNumber Uint8 Big, Read 2] (newStreamReader [[1, 2, 3]] BitOpsValueReader)) =
     [(Inr (Value (Some 1)), 1), (Inr (Bytes [2, 3]), 3)] \<and>
   allSucceeded (fst (performAllWith read [ReadNumber Uint8 Big, Read 2] (newStreamReader [[1], [2], [3]] BitOpsValueReader))) \<and>
   bytesRead (snd (performAllWith read [ReadNumber Uint8 Big, Read 2] (newStreamReader [[1], [2], [3]] BitOpsValueReader))) = 3"
proof -
  have e: "fst (performAllWith read [ReadNumber Uint8 Big, Read 2] (newStreamReader [[1], [2], [3]] BitOpsValueReader)) =
     [(Inr (Value (Some 1)), 1), (Inr (Bytes [2, 3]), 3)]"
    by (simp add: newStreamReader_def readNumberWith_def read_def ensureBufferFilledToAtLeast.simps
        slice_bytes_def trimBuffer_def BitOps_readUint8_def index0_def Let_def)
  show ?thesis
    using chunking_not_observable
      [of "newStreamReader [[1], [2], [3]] BitOpsValueReader" "newStreamReader [[1, 2, 3]] BitOpsValueReader"
          "[ReadNumber Uint8 Big, Read 2]"] e
    by (simp add: allSucceeded_def)
qed

lemma read_failed_state:
  assumes "readerInv s" "length (unread s) < n"
  shows "snd (read n s) = (snd (ensureBufferFilledToAtLeast n s))"
    and "bufferOffset (snd (read n s)) = bufferOffset s"
    and "buffer (snd (read n s)) = buffer s @ concat (reader s)"
    and "reader (snd (read n s)) = []"
proof -
  have no: "\<not> bufferOffset s + n \<le> length (buffer s) + length (concat (reader s))"
    using assms enough_iff [OF assms(1), of n] by simp
  then have "fst (ensureBufferFilledToAtLeast n s) = Inl EndOfStream"
    using ensure_outcome [of n s] by simp
  then show a: "snd (read n s) = (snd (ensureBufferFilledToAtLeast n s))"
    by (cases "ensureBufferFilledToAtLeast n s") (simp add: read_def)
  show "bufferOffset (snd (read n s)) = bufferOffset s"
    unfolding a using ensure_fields [of n s] by simp
  show "buffer (snd (read n s)) = buffer s @ concat (reader s)"
    unfolding a using ensure_outcome [of n s] no by simp
  show "reader (snd (read n s)) = []"
    unfolding a using ensure_outcome [of n s] no by simp
qed

text \<open>
  Claim C4. When \<open>n\<close> exceeds the number of unread bytes, buffered or still to come,
  \<open>read n\<close> fails with the end-of-stream error; the cursor and \<open>bytesRead\<close> are as
  before, the window holds the old window followed by every chunk the stream had left,
  and the stream is exhausted. The reader stays usable: a later \<open>read m\<close>, with \<open>m\<close> at most
  the number of bytes available, succeeds, returns the next \<open>m\<close> of them and counts them.
\<close>

theorem read_beyond_end:
  assumes "readerInv s" and "length (unread s) < n"
  shows "fst (read n s) = Inl EndOfStream \<and>
         bufferOffset (snd (read n s)) = bufferOffset s \<and>
         bytesRead (snd (read n s)) = bytesRead s \<and>
         buffer (snd (read n s)) = buffer s @ concat (reader s) \<and>
         reader (snd (read n s)) = [] \<and>
         (\<forall>m \<le> length (unread s).
            fst (read m (snd (read n s))) = Inr (take m (unread s)) \<and>
            bytesRead (snd (read m (snd (read n s)))) = bytesRead s + m)"
proof -
  have v: "fst (read n s) = Inl EndOfStream" "unread (snd (read n s)) = unread s"
    "bytesRead (snd (read n s)) = bytesRead s" "readerInv (snd (read n s))"
    using read_view [OF assms(1), of n] assms(2) by simp_all
  have "fst (read m (snd (read n s))) = Inr (take m (unread s)) \<and>
        bytesRead (snd (read m (snd (read n s)))) = bytesRead s + m" if "m \<le> length (unread s)" for m
    using read_view [OF v(4), of m] that by (simp add: v(2,3))
  then show ?thesis
    using v(1,3) read_failed_state(2-4) [OF assms] by simp
qed

text \<open>Witness for C4: \<open>read 5\<close> on a stream of three bytes fails, then \<open>read 3\<close> returns them.\<close>

theorem read_beyond_end_witness:
  "readerInv (newStreamReader [[1, 2, 3]] BitOpsValueReader) \<and>
   length (unread (newStreamReader [[1, 2, 3]] BitOpsValueReader)) < 5 \<and>
   fst (read 5 (newStreamReader [[1, 2, 3]] BitOpsValueReader)) = Inl EndOfStream \<and>
   bufferOffset (snd (read 5 (newStreamReader [[1, 2, 3]] BitOpsValueReader))) = 0 \<and>
   bytesRead (snd (read 5 (newStreamReader [[1, 2, 3]] BitOpsValueReader))) = 0 \<and>
   buffer (snd (read 5 (newStreamReader [[1, 2, 3]] BitOpsValueReader))) = [1, 2, 3] \<and>
   reader (snd (read 5 (newStreamReader [[1, 2, 3]] BitOpsValueReader))) = [] \<and>
   (3::nat) \<le> length (unread (newStreamReader [[1, 2, 3]] BitOpsValueReader)) \<and>
   fst (read 3 (snd (read 5 (newStreamReader [[1, 2, 3]] BitOpsValueReader)))) = Inr [1, 2, 3] \<and>
   bytesRead (snd (read 3 (snd (read 5 (newStreamReader [[1, 2, 3]] BitOpsValueReader))))) = 3"
proof -
  define s where "s = newStreamReader [[1, 2, 3]] BitOpsValueReader"
  have a: "readerInv s" by (simp add: s_def)
  have b: "length (unread s) < 5" by (simp add: s_def)
  have c: "(3::nat) \<le> length (unread s)" by (simp add: s_def)
  have d: "bufferOffset s = 0" "bytesRead s = 0" "buffer s @ concat (reader s) = [1, 2, 3]"
    "take 3 (unread s) = [1, 2, 3]"
    by (simp_all add: s_def newStreamReader_def unread_def)
  from read_beyond_end [OF a b] c d
  have "fst (read 5 s) = Inl EndOfStream \<and> bufferOffset (snd (read 5 s)) = 0 \<and>
    bytesRead (snd (read 5 s)) = 0 \<and> buffer (snd (read 5 s)) = [1, 2, 3] \<and> reader (snd (read 5 s)) = [] \<and>
    fst (read 3 (snd (read 5 s))) = Inr [1, 2, 3] \<and> bytesRead (snd (read 3 (snd (read 5 s)))) = 3"
    by simp
  then show ?thesis using a b c unfolding s_def by simp
qed

text \<open>
  Claim C9. On every reader whose cursor is inside its window, the exhausted ones
  included, \<open>read 0\<close> succeeds with the empty array; it pulls nothing from the stream and
  leaves \<open>bytesRead\<close> and the unread bytes as they were, so every later sequence of reads
  returns what it would have returned without it.
\<close>

theorem read_zero:
  assumes "readerInv s"
  shows "fst (read 0 s) = Inr [] \<and>
         reader (snd (read 0 s)) = reader s \<and>
         bytesRead (snd (read 0 s)) = bytesRead s \<and>
         unread (snd (read 0 s)) = unread s \<and>
         fst (performAllWith read reqs (snd (read 0 s))) = fst (performAllWith read reqs s)"
proof -
  have v: "fst (read 0 s) = Inr []" "unread (snd (read 0 s)) = unread s"
    "bytesRead (snd (read 0 s)) = bytesRead s" "valueReader (snd (read 0 s)) = valueReader s"
    "reader (snd (read 0 s)) = reader (snd (ensureBufferFilledToAtLeast 0 s))" "readerInv (snd (read 0 s))"
    using read_view [OF assms, of 0] by simp_all
  have "ensureBufferFilledToAtLeast 0 s = (Inr (), s)"
    using ensure_outcome [of 0 s] assms by (simp add: readerInv_def)
  then have r: "reader (snd (read 0 s)) = reader s" using v(5) by simp
  have "sameView (snd (read 0 s)) s" using v(2-4) by (simp add: sameView_def)
  then have "fst (performAllWith read reqs (snd (read 0 s))) = fst (performAllWith read reqs s)"
    by (rule performAllWith_same [OF servesUnread_read servesUnread_read v(6) assms])
  then show ?thesis using v(1-3) r by simp
qed

text \<open>Witness for C9: a new reader over a stream that is already exhausted.\<close>

theorem read_zero_witness:
  "readerInv (newStreamReader [] BitOpsValueReader) \<and>
   fst (read 0 (newStreamReader [] BitOpsValueReader)) = Inr [] \<and>
   reader (snd (read 0 (newStreamReader [] BitOpsValueReader))) = reader (newStreamReader [] BitOpsValueReader) \<and>
   bytesRead (snd (read 0 (newStreamReader [] BitOpsValueReader))) = bytesRead (newStreamReader [] BitOpsValueReader) \<and>
   unread (snd (read 0 (newStreamReader [] BitOpsValueReader))) = unread (newStreamReader [] BitOpsValueReader) \<and>
   fst (performAllWith read [Read 1] (snd (read 0 (newStreamReader [] BitOpsValueReader)))) =
     fst (performAllWith read [Read 1] (newStreamReader [] BitOpsValueReader))"
proof -
  have a: "readerInv (newStreamReader [] BitOpsValueReader)" by simp
  show ?thesis using a read_zero [OF a, of "[Read 1]"] by (rule conjI)
qed

text \<open>
  Claim C5. Every sequence of reads returns the same results and shows the same
  \<open>bytesRead\<close> values on the reader and on the reader that never compacts. \<open>trimBuffer\<close>
  keeps the unread bytes, the stream and the counter: it drops a prefix of the window
  that ends at or before the cursor and moves the cursor back by its length; for a
  window shorter than \<open>2 ^ 32\<close> bytes it drops everything before the cursor exactly when
  the cursor exceeds half the length of the window.
\<close>

theorem compaction_not_observable:
  assumes "readerInv s"
  shows "fst (performAllWith read reqs s) = fst (performAllWith readNoTrim reqs s) \<and>
         unread (trimBuffer s) = unread s \<and>
         reader (trimBuffer s) = reader s \<and>
         bytesRead (trimBuffer s) = bytesRead s \<and>
         (\<exists>d \<le> bufferOffset s.
            buffer (trimBuffer s) = drop d (buffer s) \<and> bufferOffset (trimBuffer s) = bufferOffset s - d) \<and>
         (length (buffer s) < 2 ^ 32 \<longrightarrow>
            trimBuffer s =
              (if length (buffer s) div 2 < bufferOffset s
               then s\<lparr>buffer := drop (bufferOffset s) (buffer s), bufferOffset := 0\<rparr> else s))"
proof -
  have "sameView s s" by (simp add: sameView_def)
  then have a: "fst (performAllWith read reqs s) = fst (performAllWith readNoTrim reqs s)"
    by (rule performAllWith_same [OF servesUnread_read servesUnread_readNoTrim assms assms])
  have b: "\<exists>d \<le> bufferOffset s.
            buffer (trimBuffer s) = drop d (buffer s) \<and> bufferOffset (trimBuffer s) = bufferOffset s - d"
  proof (cases "bufferOffset s > (length (buffer s) mod 2 ^ 32) div 2")
    case True
    then have "buffer (trimBuffer s) = drop (bufferOffset s) (buffer s) \<and>
               bufferOffset (trimBuffer s) = bufferOffset s - bufferOffset s"
      by (simp add: trimBuffer_def)
    then show ?thesis by blast
  next
    case False
    then have "buffer (trimBuffer s) = drop 0 (buffer s) \<and> bufferOffset (trimBuffer s) = bufferOffset s - 0"
      by (simp add: trimBuffer_def)
    then show ?thesis by blast
  qed
  have c: "length (buffer s) < 2 ^ 32 \<longrightarrow>
            trimBuffer s =
              (if length (buffer s) div 2 < bufferOffset s
               then s\<lparr>buffer := drop (bufferOffset s) (buffer s), bufferOffset := 0\<rparr> else s)"
    by (simp add: trimBuffer_def)
  show ?thesis using a b c by (simp add: trimBuffer_keeps)
qed

text \<open>
  Witness for C5: a window of four bytes with the cursor at 3, which the first read
  compacts.
\<close>

theorem compaction_not_observable_witness:
  "readerInv \<lparr>reader = [[5, 6]], buffer = [1, 2, 3, 4], bufferOffset = 3,
      valueReader = BitOpsValueReader, bytesRead = 3\<rparr> \<and>
   length (buffer \<lparr>reader = [[5, 6]], buffer = [1, 2, 3, 4], bufferOffset = 3,
      valueReader = BitOpsValueReader, bytesRead = 3\<rparr>) < 2 ^ 32 \<and>
   fst (performAllWith read [Read 2, Read 1] \<lparr>reader = [[5, 6]], buffer = [1, 2, 3, 4], bufferOffset = 3,
      valueReader = BitOpsValueReader, bytesRead = 3\<rparr>) = [(Inr (Bytes [4, 5]), 5), (Inr (Bytes [6]), 6)] \<and>
   fst (performAllWith readNoTrim [Read 2, Read 1] \<lparr>reader = [[5, 6]], buffer = [1, 2, 3, 4], bufferOffset = 3,
      valueReader = BitOpsValueReader, bytesRead = 3\<rparr>) = [(Inr (Bytes [4, 5]), 5), (Inr (Bytes [6]), 6)] \<and>
   trimBuffer \<lparr>reader = [[5, 6]], buffer = [1, 2, 3, 4], bufferOffset = 3,
      valueReader = BitOpsValueReader, bytesRead = 3\<rparr> =
     \<lparr>reader = [[5, 6]], buffer = [4], bufferOffset = 0, valueReader = BitOpsValueReader, bytesRead = 3\<rparr>"
proof -
  define s where "s = \<lparr>reader = [[5, 6]], buffer = [1, 2, 3, 4 :: byte], bufferOffset = 3,
      valueReader = BitOpsValueReader, bytesRead = 3\<rparr>"
  have a: "readerInv s" by (simp add: s_def readerInv_def)
  have b: "length (buffer s) < 2 ^ 32" by (simp add: s_def)
  have e: "fst (performAllWith readNoTrim [Read 2, Read 1] s) = [(Inr (Bytes [4, 5]), 5), (Inr (Bytes [6]), 6)]"
    by (simp add: s_def readNoTrim_def ensureBufferFilledToAtLeast.simps slice_bytes_def Let_def)
  have t: "(if length (buffer s) div 2 < bufferOffset s
            then s\<lparr>buffer := drop (bufferOffset s) (buffer s), bufferOffset := 0\<rparr> else s) =
           \<lparr>reader = [[5, 6]], buffer = [4], bufferOffset = 0, valueReader = BitOpsValueReader, bytesRead = 3\<rparr>"
    by (simp add: s_def)
  from compaction_not_observable [OF a, of "[Read 2, Read 1]"] b e t
  have "fst (performAllWith read [Read 2, Read 1] s) = [(Inr (Bytes [4, 5]), 5), (Inr (Bytes [6]), 6)] \<and>
        trimBuffer s =
          \<lparr>reader = [[5, 6]], buffer = [4], bufferOffset = 0, valueReader = BitOpsValueReader, bytesRead = 3\<rparr>"
    by simp
  then show ?thesis using a b e unfolding s_def by simp
qed

text \<open>
  Claim C7 fails as stated: on a reader with no unread byte and an exhausted stream (a new
  reader over the empty stream, or a reader that has read all three bytes of its stream)
  the first \<open>readUntilEof\<close> returns the empty array.
\<close>

theorem drain_nothing_unread_counterexample:
  "reader (newStreamReader [] BitOpsValueReader) = [] \<and>
   fst (readUntilEof (newStreamReader [] BitOpsValueReader)) = [] \<and>
   fst (read 3 (newStreamReader [[1, 2, 3]] BitOpsValueReader)) = Inr [1, 2, 3] \<and>
   fst (readUntilEof (snd (read 3 (newStreamReader [[1, 2, 3]] BitOpsValueReader)))) = []"
  by (simp add: readUntilEof_def newStreamReader_def read_def ensureBufferFilledToAtLeast.simps
      slice_bytes_def trimBuffer_def Let_def)

text \<open>
  Claim C7, amended. The first \<open>readUntilEof\<close> returns the unread bytes of the window
  followed by every chunk the stream has left, and adds the number of bytes returned to
  \<open>bytesRead\<close>; the result is non-empty exactly when some byte was unread. It leaves the
  stream exhausted, and the second call returns the empty array and counts nothing.
  \<open>readUntilEof\<close> has no failing path.
\<close>

theorem drain_twice:
  "fst (readUntilEof s) = unread s \<and>
   bytesRead (snd (readUntilEof s)) = bytesRead s + length (fst (readUntilEof s)) \<and>
   reader (snd (readUntilEof s)) = [] \<and>
   fst (readUntilEof (snd (readUntilEof s))) = [] \<and>
   bytesRead (snd (readUntilEof (snd (readUntilEof s)))) = bytesRead (snd (readUntilEof s)) \<and>
   (fst (readUntilEof s) \<noteq> []) = (unread s \<noteq> [])"
  by (simp add: readUntilEof_eq unread_def)

text \<open>Witness for C7: one byte read, then two drains.\<close>

theorem drain_twice_witness:
  "fst (readUntilEof (snd (read 1 (newStreamReader [[1, 2], [3]] BitOpsValueReader)))) = [2, 3] \<and>
   bytesRead (snd (readUntilEof (snd (read 1 (newStreamReader [[1, 2], [3]] BitOpsValueReader))))) = 3 \<and>
   fst (readUntilEof (snd (readUntilEof (snd (read 1 (newStreamReader [[1, 2], [3]] BitOpsValueReader)))))) = []"
proof -
  define s where "s = snd (read 1 (newStreamReader [[1, 2], [3]] BitOpsValueReader))"
  have u: "unread s = [2, 3]" "bytesRead s = 1"
    by (simp_all add: s_def newStreamReader_def read_def ensureBufferFilledToAtLeast.simps
        slice_bytes_def trimBuffer_def unread_def Let_def)
  show ?thesis using drain_twice [of s] u unfolding s_def by simp
qed

section \<open>The buffer source\<close>

text \<open>
  What holds of \<open>uint8ArrayFromBufferSource\<close>: a value that is no buffer source raises
  \<open>TypeError\<close>; an ArrayBuffer, a Uint8Array, and another view that spans its whole
  buffer give a view of the same storage with exactly the bytes of the argument.
\<close>

lemma uint8ArrayFromBufferSource_whole:
  "uint8ArrayFromBufferSource heap NoBufferArg = Inl TypeError"
  "map_sum id (viewBytes heap) (uint8ArrayFromBufferSource heap (ArrayBufferArg b)) =
     Inr (heap (ArrayBuffer b))"
  "map_sum id (viewBytes heap) (uint8ArrayFromBufferSource heap (Uint8ArrayArg v)) = Inr (viewBytes heap v)"
  "viewBuffer v = ArrayBuffer b \<Longrightarrow> byteOffset v = 0 \<Longrightarrow> byteLength v = length (heap (ArrayBuffer b)) \<Longrightarrow>
   map_sum id (viewBytes heap) (uint8ArrayFromBufferSource heap (OtherViewArg v)) = Inr (viewBytes heap v)"
  by (simp_all add: uint8ArrayFromBufferSource_def newUint8Array_def viewBytes_def)

text \<open>
  Claim C8 fails on a view that does not span its buffer. A \<open>Uint16Array\<close> of one element
  at byte offset 2 of an 8-byte ArrayBuffer exposes the bytes 3, 4; the function returns
  a view of all 8 bytes of the buffer.
\<close>

theorem view_bounds_dropped:
  "sourceBytes (\<lambda>b. if b = ArrayBuffer 0 then [1, 2, 3, 4, 5, 6, 7, 8] else [])
     (OtherViewArg \<lparr>viewBuffer = ArrayBuffer 0, byteOffset = 2, byteLength = 2\<rparr>) = Some [3, 4] \<and>
   map_sum id (viewBytes (\<lambda>b. if b = ArrayBuffer 0 then [1, 2, 3, 4, 5, 6, 7, 8] else []))
     (uint8ArrayFromBufferSource (\<lambda>b. if b = ArrayBuffer 0 then [1, 2, 3, 4, 5, 6, 7, 8] else [])
        (OtherViewArg \<lparr>viewBuffer = ArrayBuffer 0, byteOffset = 2, byteLength = 2\<rparr>)) =
     Inr [1, 2, 3, 4, 5, 6, 7, 8]"
  by (simp add: sourceBytes_def uint8ArrayFromBufferSource_def newUint8Array_def viewBytes_def)

end
